theory Spec2Isabelle
  imports Main "HOL-Library.Word"
begin

section \<open>James' Cafe: the ordering system of JamesCafe.cpp\<close>

text \<open>
  The program is one sequential loop over standard input. Every blocking read is a
  call of \<open>std::getline\<close>; the model takes the result of each such call as an event:
  \<open>Some l\<close> when a line \<open>l\<close> was extracted, \<open>None\<close> when the call failed (end of
  input). An event also carries the reading of the system clock in milliseconds, which
  the program looks at only when it draws a receipt number.

  Integers of type \<open>int\<close> are modelled as \<open>int\<close>: the only place where a value of
  arbitrary size enters is the extraction \<open>ss >> x\<close>, whose range check is written out
  (\<open>INT_MIN\<close>, \<open>INT_MAX\<close>); stock and sold counts are shown to stay between 0 and the initial stock.
  The receipt counter and the receipt number are \<open>unsigned long long\<close>, modelled as
  \<open>64 word\<close>. Prices are \<open>double\<close> in the source; every price of the catalog is a whole
  number of pesos and every product and sum the program forms stays far below \<open>2^53\<close>
  (the revenue of a day is shown to be at most 41100), where \<open>double\<close> arithmetic on
  whole numbers is exact, so a price is modelled as the \<open>int\<close> number of pesos.

  A point of a run is a moment at which the program waits for a line, or has ended;
  the two writes of a commit, to \<open>qty\<close> and to \<open>sold\<close>, are adjacent statements.
\<close>

subsection \<open>Input helpers\<close>

definition INT_MIN :: int where
  "INT_MIN = - 2147483648"

definition INT_MAX :: int where
  "INT_MAX = 2147483647"

text \<open>The white space of the classic locale: space, \<open>\t\<close>, \<open>\n\<close>, \<open>\v\<close>, \<open>\f\<close>, \<open>\r\<close>.\<close>

definition is_space :: "char \<Rightarrow> bool" where
  "is_space c \<longleftrightarrow> c = CHR 0x20 \<or> c = CHR 0x09 \<or> c = CHR 0x0A \<or> c = CHR 0x0B
     \<or> c = CHR 0x0C \<or> c = CHR 0x0D"

definition is_digit :: "char \<Rightarrow> bool" where
  "is_digit c \<longleftrightarrow> 48 \<le> (of_char c :: nat) \<and> (of_char c :: nat) \<le> 57"

definition digit_val :: "char \<Rightarrow> int" where
  "digit_val c = int (of_char c) - 48"

definition digits_val :: "string \<Rightarrow> int" where
  "digits_val ds = foldl (\<lambda>a c. 10 * a + digit_val c) 0 ds"

text \<open>\<open>if (!line.empty() && line.back() == '\r') line.pop_back();\<close>\<close>

definition strip_cr :: "string \<Rightarrow> string" where
  "strip_cr s = (if s \<noteq> [] \<and> last s = CHR 0x0D then butlast s else s)"

text \<open>
  \<open>stringstream ss(line); int x; ss >> x && ss.eof()\<close>: the extraction skips leading
  white space, takes an optional sign and then decimal digits, fails when there is no
  digit or when the value does not fit an \<open>int\<close>, and has reached the end of the
  stream exactly when nothing follows the digits. The result is the value of \<open>x\<close> when
  the whole condition holds.
\<close>

definition extract_int :: "string \<Rightarrow> int option" where
  "extract_int s =
     (let t = dropWhile is_space s;
          neg = (t \<noteq> [] \<and> hd t = CHR ''-'');
          u = (if t \<noteq> [] \<and> (hd t = CHR ''-'' \<or> hd t = CHR ''+'') then tl t else t);
          ds = takeWhile is_digit u;
          rest = dropWhile is_digit u;
          v = (if neg then - digits_val ds else digits_val ds)
      in if ds = [] then None
         else if v < INT_MIN \<or> INT_MAX < v then None
         else if rest \<noteq> [] then None
         else Some v)"

text \<open>Why a prompt asks again instead of returning.\<close>

datatype rejection = EndOfInput | InvalidNumber | OutOfRange | NotYesNo

text \<open>
  One turn of the loop of \<open>readIntInRange\<close>, given what \<open>getline\<close> delivered:
  \<open>Inr x\<close> is \<open>return x\<close>, \<open>Inl r\<close> is \<open>continue\<close> (after \<open>cin.clear()\<close> for a
  failed read, after the error message otherwise).
\<close>

definition readIntInRange_turn :: "int \<Rightarrow> int \<Rightarrow> string option \<Rightarrow> rejection + int" where
  "readIntInRange_turn minVal maxVal got =
     (case got of
        None \<Rightarrow> Inl EndOfInput
      | Some l \<Rightarrow>
          (case extract_int (strip_cr l) of
             Some x \<Rightarrow> if x < minVal \<or> x > maxVal then Inl OutOfRange else Inr x
           | None \<Rightarrow> Inl InvalidNumber))"

text \<open>
  The whole loop \<open>while (true)\<close> of \<open>readIntInRange\<close> over the reads still to come.
  It returns the value and the reads it left; when the reads run out before an
  acceptable line, the loop never returns (\<open>None\<close>).
\<close>

fun readIntInRange :: "int \<Rightarrow> int \<Rightarrow> string option list \<Rightarrow> (int \<times> string option list) option" where
  "readIntInRange minVal maxVal [] = None"
| "readIntInRange minVal maxVal (got # inp) =
     (case readIntInRange_turn minVal maxVal got of
        Inr x \<Rightarrow> Some (x, inp)
      | Inl r \<Rightarrow> readIntInRange minVal maxVal inp)"

text \<open>\<open>std::tolower\<close> on a byte, classic locale.\<close>

definition to_lower :: "char \<Rightarrow> char" where
  "to_lower c = (if 65 \<le> (of_char c :: nat) \<and> (of_char c :: nat) \<le> 90
                 then char_of (of_char c + 32 :: nat) else c)"

definition readYesNo_turn :: "string option \<Rightarrow> rejection + bool" where
  "readYesNo_turn got =
     (case got of
        None \<Rightarrow> Inl EndOfInput
      | Some l \<Rightarrow>
          (let line = map to_lower (strip_cr l)
           in if line = ''y'' \<or> line = ''yes'' then Inr True
              else if line = ''n'' \<or> line = ''no'' then Inr False
              else Inl NotYesNo))"

text \<open>
  \<open>readLineTrimmed\<close>: the empty string when the read fails (the stream is left in its
  failed state: this function does not call \<open>cin.clear()\<close>), otherwise the line without
  one trailing \<open>\r\<close> and without leading and trailing white space.
\<close>

definition trim_ws :: "string \<Rightarrow> string" where
  "trim_ws s = rev (dropWhile is_space (rev (dropWhile is_space s)))"

definition readLineTrimmed :: "string option \<Rightarrow> string" where
  "readLineTrimmed got = (case got of None \<Rightarrow> [] | Some l \<Rightarrow> trim_ws (strip_cr l))"

subsection \<open>Domain classes\<close>

record Item =
  name :: string
  price :: int
  qty :: int
  category :: string
  sold :: int

text \<open>
  An \<open>Item*\<close> is either null or the address of an element of the vector \<open>menu\<close>, which
  is never resized: \<open>Some i\<close> stands for \<open>&menu[i]\<close>, \<open>None\<close> for \<open>nullptr\<close>.
\<close>

type_synonym Item_ptr = "nat option"

record OrderLine =
  item :: Item_ptr
  quantity :: int

text \<open>\<open>OrderLine::subtotal\<close> reads the price through the pointer, in the catalog as it is now.\<close>

definition subtotal :: "Item list \<Rightarrow> OrderLine \<Rightarrow> int" where
  "subtotal menu l = (case item l of Some i \<Rightarrow> price (menu ! i) * quantity l | None \<Rightarrow> 0)"

text \<open>The field \<open>timestamp\<close>, which only \<open>printReceipt\<close> reads, is left out.\<close>

record Order =
  customerName :: string
  dineOption :: string
  lines :: "OrderLine list"
  receiptNo :: "64 word"

text \<open>\<open>Order::total\<close>: \<open>t = 0.0; for (l : lines) t += l.subtotal();\<close>\<close>

definition total :: "Item list \<Rightarrow> Order \<Rightarrow> int" where
  "total menu ord = foldl (\<lambda>t l. t + subtotal menu l) 0 (lines ord)"

subsection \<open>App helpers\<close>

fun isCategorySoldOut :: "Item list \<Rightarrow> string \<Rightarrow> bool" where
  "isCategorySoldOut [] cat = True"
| "isCategorySoldOut (it # menu) cat =
     (if category it = cat \<and> qty it > 0 then False else isCategorySoldOut menu cat)"

text \<open>
  \<open>listAvailableInCategory\<close>: the addresses of the items of the category that are in
  stock, in the order of the vector. What it prints is left out.
\<close>

definition listAvailableInCategory :: "Item list \<Rightarrow> string \<Rightarrow> Item_ptr list" where
  "listAvailableInCategory menu cat =
     foldl (\<lambda>available i.
              if category (menu ! i) = cat \<and> qty (menu ! i) > 0 then available @ [Some i]
              else available)
       [] [0..<length menu]"

text \<open>
  \<open>generateReceiptNumber\<close>, with its static counter passed in and out and the clock
  reading \<open>millis\<close> as an argument: \<open>(millis % 1000000000ULL) + (++counter)\<close>.
\<close>

definition generateReceiptNumber :: "64 word \<Rightarrow> 64 word \<Rightarrow> 64 word \<times> 64 word" where
  "generateReceiptNumber counter millis =
     (millis mod 1000000000 + (counter + 1), counter + 1)"

subsection \<open>The main program as a machine over the reads\<close>

text \<open>The thirteen items of \<open>main\<close>, each with 20 in stock and nothing sold.\<close>

definition mk_item :: "string \<Rightarrow> int \<Rightarrow> int \<Rightarrow> string \<Rightarrow> Item" where
  "mk_item n p q c = \<lparr>name = n, price = p, qty = q, category = c, sold = 0\<rparr>"

definition initial_menu :: "Item list" where
  "initial_menu =
     [mk_item ''Cappuccino'' 140 20 ''Beverages'',
      mk_item ''Latte'' 150 20 ''Beverages'',
      mk_item ''Iced Americano'' 120 20 ''Beverages'',
      mk_item ''Chocolate Milkshake'' 190 20 ''Beverages'',
      mk_item ''Blueberry Muffin'' 75 20 ''Snacks'',
      mk_item ''Garlic Parmesan Toast'' 95 20 ''Snacks'',
      mk_item ''Glazed Donut Holes'' 100 20 ''Snacks'',
      mk_item ''Chicken Wrap'' 180 20 ''Meals'',
      mk_item ''Garlic Rice + Burger'' 220 20 ''Meals'',
      mk_item ''Chicken Alfredo Pasta'' 275 20 ''Meals'',
      mk_item ''Chocolate Cake Slice'' 130 20 ''Desserts'',
      mk_item ''Fruit Parfait'' 110 20 ''Desserts'',
      mk_item ''Tiramisu'' 270 20 ''Desserts'']"

text \<open>
  Where the program waits for a line. \<open>AskItem\<close> holds the vector \<open>available\<close>,
  \<open>AskQty\<close> the pointer \<open>chosen\<close> (not null there) and the bound \<open>chosen->qty\<close> as it
  was evaluated for the call of \<open>readIntInRange\<close>. \<open>NameLoop\<close> is the loop asking for
  the name after a failed read: \<open>readLineTrimmed\<close> leaves the stream failed, so every
  later read fails at once and the loop never ends. \<open>Finished\<close> is after the summary.
\<close>

datatype prompt =
  AskName | AskDine | AskCategory | AskItem "Item_ptr list" | AskQty nat int
  | AskAddMore | AskContinue | AskNext | Finished | NameLoop

record state =
  menu :: "Item list"
  allOrders :: "Order list"
  customersServed :: int
  counter :: "64 word"
  order :: Order
  at :: prompt

record event =
  millis :: "64 word"
  got :: "string option"

text \<open>\<open>Order order; order.receiptNo = generateReceiptNumber();\<close> at the head of the outer loop.\<close>

definition new_customer :: "64 word \<Rightarrow> state \<Rightarrow> state" where
  "new_customer now s =
     (let (r, c) = generateReceiptNumber (counter s) now
      in s\<lparr>counter := c,
           order := \<lparr>customerName = [], dineOption = [], lines = [], receiptNo = r\<rparr>,
           at := AskName\<rparr>)"

definition initial :: "64 word \<Rightarrow> state" where
  "initial now =
     new_customer now
       \<lparr>menu = initial_menu, allOrders = [], customersServed = 0, counter = 0,
        order = \<lparr>customerName = [], dineOption = [], lines = [], receiptNo = 0\<rparr>,
        at = AskName\<rparr>"

text \<open>After the selection loop: \<open>if (order.lines.empty()) ... else ...\<close>, then the last question.\<close>

definition close_order :: "state \<Rightarrow> state" where
  "close_order s =
     (if lines (order s) = [] then s\<lparr>at := AskNext\<rparr>
      else s\<lparr>allOrders := allOrders s @ [order s],
             customersServed := customersServed s + 1,
             at := AskNext\<rparr>)"

text \<open>The \<open>switch (catChoice)\<close>.\<close>

definition category_of :: "int \<Rightarrow> string" where
  "category_of catChoice =
     (if catChoice = 1 then ''Beverages''
      else if catChoice = 2 then ''Snacks''
      else if catChoice = 3 then ''Meals''
      else if catChoice = 4 then ''Desserts''
      else [])"

text \<open>
  \<open>OrderLine line{chosen, qty}; order.lines.push_back(line); chosen->qty -= qty;
  chosen->sold += qty;\<close>
\<close>

definition add_line :: "nat \<Rightarrow> int \<Rightarrow> state \<Rightarrow> state" where
  "add_line chosen q s =
     s\<lparr>order := (order s)\<lparr>lines := lines (order s) @ [\<lparr>item = Some chosen, quantity = q\<rparr>]\<rparr>,
       menu := (menu s)[chosen := (menu s ! chosen)
                  \<lparr>qty := qty (menu s ! chosen) - q, sold := sold (menu s ! chosen) + q\<rparr>]\<rparr>"

definition on_name :: "string option \<Rightarrow> state \<Rightarrow> state" where
  "on_name g s =
     (case g of
        None \<Rightarrow> s\<lparr>at := NameLoop\<rparr>
      | Some l \<Rightarrow>
          (let nm = readLineTrimmed g
           in if nm = [] then s
              else s\<lparr>order := (order s)\<lparr>customerName := nm\<rparr>, at := AskDine\<rparr>))"

definition on_dine :: "string option \<Rightarrow> state \<Rightarrow> state" where
  "on_dine g s =
     (case readYesNo_turn g of
        Inl r \<Rightarrow> s
      | Inr isEatIn \<Rightarrow>
          s\<lparr>order := (order s)\<lparr>dineOption := (if isEatIn then ''Eat-In'' else ''Take-Out'')\<rparr>,
            at := AskCategory\<rparr>)"

definition on_category :: "string option \<Rightarrow> state \<Rightarrow> state" where
  "on_category g s =
     (case readIntInRange_turn 0 4 g of
        Inl r \<Rightarrow> s
      | Inr catChoice \<Rightarrow>
          if catChoice = 0 then close_order s
          else let cat = category_of catChoice
               in if cat = [] then s
                  else if isCategorySoldOut (menu s) cat then s
                  else let available = listAvailableInCategory (menu s) cat
                       in if available = [] then s else s\<lparr>at := AskItem available\<rparr>)"

definition on_item :: "Item_ptr list \<Rightarrow> string option \<Rightarrow> state \<Rightarrow> state" where
  "on_item available g s =
     (case readIntInRange_turn 0 (int (length available)) g of
        Inl r \<Rightarrow> s
      | Inr itemChoice \<Rightarrow>
          if itemChoice = 0 then s\<lparr>at := AskCategory\<rparr>
          else (case available ! nat (itemChoice - 1) of
                  None \<Rightarrow> s\<lparr>at := AskCategory\<rparr>
                | Some chosen \<Rightarrow> s\<lparr>at := AskQty chosen (qty (menu s ! chosen))\<rparr>))"

definition on_qty :: "nat \<Rightarrow> int \<Rightarrow> string option \<Rightarrow> state \<Rightarrow> state" where
  "on_qty chosen maxVal g s =
     (case readIntInRange_turn 1 maxVal g of
        Inl r \<Rightarrow> s
      | Inr q \<Rightarrow> (add_line chosen q s)\<lparr>at := AskAddMore\<rparr>)"

definition on_add_more :: "string option \<Rightarrow> state \<Rightarrow> state" where
  "on_add_more g s =
     (case readYesNo_turn g of
        Inl r \<Rightarrow> s
      | Inr addMore \<Rightarrow> if addMore then s\<lparr>at := AskCategory\<rparr> else s\<lparr>at := AskContinue\<rparr>)"

definition on_continue :: "string option \<Rightarrow> state \<Rightarrow> state" where
  "on_continue g s =
     (case readYesNo_turn g of
        Inl r \<Rightarrow> s
      | Inr continueOrdering \<Rightarrow>
          if continueOrdering then s\<lparr>at := AskCategory\<rparr> else close_order s)"

definition on_next :: "event \<Rightarrow> state \<Rightarrow> state" where
  "on_next e s =
     (case readYesNo_turn (got e) of
        Inl r \<Rightarrow> s
      | Inr nxt \<Rightarrow> if nxt then new_customer (millis e) s else s\<lparr>at := Finished\<rparr>)"

text \<open>What one read does to the program.\<close>

definition step :: "state \<Rightarrow> event \<Rightarrow> state" where
  "step s e =
     (case at s of
        AskName \<Rightarrow> on_name (got e) s
      | AskDine \<Rightarrow> on_dine (got e) s
      | AskCategory \<Rightarrow> on_category (got e) s
      | AskItem available \<Rightarrow> on_item available (got e) s
      | AskQty chosen maxVal \<Rightarrow> on_qty chosen maxVal (got e) s
      | AskAddMore \<Rightarrow> on_add_more (got e) s
      | AskContinue \<Rightarrow> on_continue (got e) s
      | AskNext \<Rightarrow> on_next e s
      | Finished \<Rightarrow> s
      | NameLoop \<Rightarrow> s)"

text \<open>
  The program after the reads \<open>es\<close>, started when the clock showed \<open>t0\<close>. Every point
  of a run is \<open>run t0 es\<close> for the reads made so far.
\<close>

definition run :: "64 word \<Rightarrow> event list \<Rightarrow> state" where
  "run t0 es = foldl step (initial t0) es"

subsection \<open>The daily summary\<close>

text \<open>\<open>for (auto& o : allOrders) totalRevenue += o.total();\<close>\<close>

definition totalRevenue :: "state \<Rightarrow> int" where
  "totalRevenue s = foldl (\<lambda>t ord. t + total (menu s) ord) 0 (allOrders s)"

definition totalItemsSold :: "state \<Rightarrow> int" where
  "totalItemsSold s = foldl (\<lambda>t it. t + sold it) 0 (menu s)"

text \<open>\<open>Item* best = nullptr; for (auto& it : menu) if (!best || it.sold > best->sold) best = &it;\<close>\<close>

definition best_scan :: "Item list \<Rightarrow> Item_ptr" where
  "best_scan items =
     foldl (\<lambda>best i. case best of
                        None \<Rightarrow> Some i
                      | Some b \<Rightarrow> if sold (items ! i) > sold (items ! b) then Some i else best)
       None [0..<length items]"

datatype best_line = BestSeller string int | NoSales

text \<open>\<open>if (best && best->sold > 0) cout << "Best seller: " ...; else cout << "No sales recorded.\n";\<close>\<close>

definition best_seller_line :: "Item list \<Rightarrow> best_line" where
  "best_seller_line items =
     (case best_scan items of
        Some b \<Rightarrow> if sold (items ! b) > 0 then BestSeller (name (items ! b)) (sold (items ! b))
                  else NoSales
      | None \<Rightarrow> NoSales)"

subsection \<open>Events and invariants used in the statements and proofs\<close>

text \<open>A read that delivers the line \<open>l\<close> while the clock shows \<open>t\<close>.\<close>

definition typed :: "64 word \<Rightarrow> string \<Rightarrow> event" where
  "typed t l = \<lparr>millis = t, got = Some l\<rparr>"

text \<open>
  The catalog keeps its length and the name, price and category of every item; stock and
  sold count of an item add up to its initial stock and neither is negative.
\<close>

definition menu_ok :: "Item list \<Rightarrow> bool" where
  "menu_ok m \<longleftrightarrow>
     length m = length initial_menu
     \<and> (\<forall>i<length initial_menu.
           name (m ! i) = name (initial_menu ! i)
           \<and> price (m ! i) = price (initial_menu ! i)
           \<and> category (m ! i) = category (initial_menu ! i)
           \<and> qty (m ! i) + sold (m ! i) = qty (initial_menu ! i)
           \<and> 0 \<le> qty (m ! i) \<and> 0 \<le> sold (m ! i))"

text \<open>
  What the data held by a prompt means: the vector \<open>available\<close> holds addresses of items
  in stock, and the bound of the quantity prompt is the stock of the chosen item.
\<close>

definition prompt_ok :: "state \<Rightarrow> bool" where
  "prompt_ok s \<longleftrightarrow>
     (case at s of
        AskItem av \<Rightarrow> \<forall>p\<in>set av. \<exists>c<length (menu s). p = Some c \<and> 0 < qty (menu s ! c)
      | AskQty c mx \<Rightarrow> c < length (menu s) \<and> mx = qty (menu s ! c) \<and> 0 < mx
      | _ \<Rightarrow> True)"

text \<open>Every line points at an item of the catalog and has a positive quantity.\<close>

definition lines_ok :: "OrderLine list \<Rightarrow> bool" where
  "lines_ok ls \<longleftrightarrow> (\<forall>l\<in>set ls. \<exists>c<length initial_menu. item l = Some c \<and> 1 \<le> quantity l)"

definition history_ok :: "state \<Rightarrow> bool" where
  "history_ok s \<longleftrightarrow>
     (\<forall>ord\<in>set (allOrders s). lines ord \<noteq> [] \<and> lines_ok (lines ord))
     \<and> lines_ok (lines (order s))
     \<and> customersServed s = int (length (allOrders s))"

definition invariant :: "state \<Rightarrow> bool" where
  "invariant s \<longleftrightarrow> menu_ok (menu s) \<and> prompt_ok s \<and> history_ok s"

text \<open>
  A ledger kept beside the run, of what the calls of \<open>generateReceiptNumber\<close> saw: the
  clock reading of the latest call, the number of calls so far, and for each order of
  the history the clock reading at the call that made its number together with the
  rank of that call (1 for the first order created). A step that answers yes to the
  question for the next customer is a call; a step after which \<open>allOrders\<close> differs
  has appended the order in progress, whose number came from the latest call.
\<close>

record ledger =
  latest :: "64 word"
  drawn :: nat
  filed :: "(64 word \<times> nat) list"

definition ledger_step :: "state \<Rightarrow> event \<Rightarrow> ledger \<Rightarrow> ledger" where
  "ledger_step s e g =
     (if at s = AskNext \<and> readYesNo_turn (got e) = Inr True
      then g\<lparr>latest := millis e, drawn := drawn g + 1\<rparr>
      else if allOrders (step s e) \<noteq> allOrders s
      then g\<lparr>filed := filed g @ [(latest g, drawn g)]\<rparr>
      else g)"

definition tracked :: "64 word \<Rightarrow> event list \<Rightarrow> state \<times> ledger" where
  "tracked t0 es =
     foldl (\<lambda>sg e. (step (fst sg) e, ledger_step (fst sg) e (snd sg)))
       (initial t0, \<lparr>latest = t0, drawn = 1, filed = []\<rparr>) es"

definition ledger_of :: "64 word \<Rightarrow> event list \<Rightarrow> ledger" where
  "ledger_of t0 es = snd (tracked t0 es)"

text \<open>
  How the ledger and the program fit: the counter is the number of calls, the number of
  the order in progress is the residue of the latest clock reading plus that count, the
  numbers of the history are those of the filed entries, whose ranks ascend and lie
  below the count while the order in progress is not yet closed.
\<close>

definition ledger_ok :: "state \<Rightarrow> ledger \<Rightarrow> bool" where
  "ledger_ok s g \<longleftrightarrow>
     counter s = of_nat (drawn g) \<and> 1 \<le> drawn g
     \<and> receiptNo (order s) = latest g mod 1000000000 + of_nat (drawn g)
     \<and> map receiptNo (allOrders s) = map (\<lambda>p. fst p mod 1000000000 + of_nat (snd p)) (filed g)
     \<and> sorted_wrt (<) (map snd (filed g))
     \<and> (\<forall>p\<in>set (filed g). 1 \<le> snd p \<and> snd p \<le> drawn g)
     \<and> (at s \<noteq> AskNext \<and> at s \<noteq> Finished \<longrightarrow> (\<forall>p\<in>set (filed g). snd p < drawn g))"

text \<open>
  The units of item \<open>i\<close> on a list of lines, and the bookkeeping that ties the sold
  counts to the lines: what the catalog counts as sold of an item is what the lines of
  the history and of the order in progress hold of it (once an order is closed its
  lines are counted with the history, or it has none).
\<close>

definition units_of :: "nat \<Rightarrow> OrderLine list \<Rightarrow> int" where
  "units_of i ls = (\<Sum>l\<leftarrow>ls. if item l = Some i then quantity l else 0)"

definition sold_ok :: "state \<Rightarrow> bool" where
  "sold_ok s \<longleftrightarrow>
     (\<forall>i<length initial_menu.
        sold (menu s ! i)
          = units_of i (concat (map lines (allOrders s)))
            + (if at s = AskNext \<or> at s = Finished then 0 else units_of i (lines (order s))))"

section \<open>Properties\<close>


lemmas input_simps = readIntInRange_turn_def extract_int_def strip_cr_def is_space_def
  is_digit_def digit_val_def digits_val_def INT_MIN_def INT_MAX_def Let_def
  readYesNo_turn_def to_lower_def readLineTrimmed_def trim_ws_def

lemmas upt_unfold = upt_rec [of _ "numeral _"] upt_rec [of _ "Suc _"]

subsection \<open>Sold-out categories\<close>

lemma foldl_push_filter:
  "foldl (\<lambda>acc i. if P i then acc @ [Some i] else acc) acc xs = acc @ map Some (filter P xs)"
  by (induction xs arbitrary: acc) simp_all

lemma listAvailableInCategory_filter:
  "listAvailableInCategory m cat =
     map Some (filter (\<lambda>i. category (m ! i) = cat \<and> qty (m ! i) > 0) [0..<length m])"
  unfolding listAvailableInCategory_def by (simp add: foldl_push_filter)

lemma isCategorySoldOut_iff:
  "isCategorySoldOut m cat \<longleftrightarrow> (\<forall>it\<in>set m. \<not> (category it = cat \<and> qty it > 0))"
  by (induction m) auto

lemma listAvailable_empty_iff:
  "listAvailableInCategory m cat = [] \<longleftrightarrow> (\<forall>it\<in>set m. \<not> (category it = cat \<and> qty it > 0))"
  by (auto simp add: listAvailableInCategory_filter filter_empty_conv all_set_conv_all_nth)

text \<open>
  C7. For every catalog and every category, \<open>isCategorySoldOut\<close> is true exactly when
  \<open>listAvailableInCategory\<close> returns the empty vector; that vector holds the items of the
  category with stock above zero, in catalog order; and a category that no item carries
  is reported sold out.
\<close>

theorem sold_out_iff_none_available:
  "(isCategorySoldOut m cat \<longleftrightarrow> listAvailableInCategory m cat = [])
   \<and> listAvailableInCategory m cat =
       map Some (filter (\<lambda>i. category (m ! i) = cat \<and> qty (m ! i) > 0) [0..<length m])
   \<and> ((\<forall>it\<in>set m. category it \<noteq> cat) \<longrightarrow> isCategorySoldOut m cat)"
proof -
  have a: "isCategorySoldOut m cat \<longleftrightarrow> listAvailableInCategory m cat = []"
    by (simp only: isCategorySoldOut_iff listAvailable_empty_iff)
  have c: "(\<forall>it\<in>set m. category it \<noteq> cat) \<longrightarrow> isCategorySoldOut m cat"
    by (simp add: isCategorySoldOut_iff)
  show ?thesis using a c listAvailableInCategory_filter [of m cat] by blast
qed

theorem sold_out_iff_none_available_witness:
  "(isCategorySoldOut initial_menu ''Pizza'' \<longleftrightarrow> listAvailableInCategory initial_menu ''Pizza'' = [])
   \<and> list_all (\<lambda>it. category it \<noteq> ''Pizza'') initial_menu
   \<and> isCategorySoldOut initial_menu ''Pizza''
   \<and> \<not> isCategorySoldOut initial_menu ''Meals''
   \<and> listAvailableInCategory initial_menu ''Meals'' = [Some 7, Some 8, Some 9]"
  using sold_out_iff_none_available [of initial_menu "''Pizza''"]
    sold_out_iff_none_available [of initial_menu "''Meals''"]
  by (simp add: initial_menu_def mk_item_def upt_unfold)

subsection \<open>The bounded integer prompt\<close>

lemma space_not_digit: "is_space c \<Longrightarrow> \<not> is_digit c"
  by (auto simp: is_space_def is_digit_def)

lemma extract_int_Some:
  assumes "extract_int s = Some x"
  shows "\<exists>ws sg ds. s = ws @ sg @ ds \<and> (\<forall>c\<in>set ws. is_space c)
           \<and> (sg = [] \<or> sg = ''-'' \<or> sg = ''+'') \<and> ds \<noteq> [] \<and> (\<forall>c\<in>set ds. is_digit c)
           \<and> x = (if sg = ''-'' then - digits_val ds else digits_val ds)
           \<and> INT_MIN \<le> x \<and> x \<le> INT_MAX"
proof -
  define t where "t = dropWhile is_space s"
  define u where "u = (if t \<noteq> [] \<and> (hd t = CHR ''-'' \<or> hd t = CHR ''+'') then tl t else t)"
  define sg where "sg = (if t \<noteq> [] \<and> (hd t = CHR ''-'' \<or> hd t = CHR ''+'') then [hd t] else [])"
  define ds where "ds = takeWhile is_digit u"
  have s: "s = takeWhile is_space s @ t" by (simp add: t_def)
  have t: "t = sg @ u" by (auto simp: sg_def u_def)
  from assms have ne: "ds \<noteq> []" and rest: "dropWhile is_digit u = []"
    and x: "x = (if t \<noteq> [] \<and> hd t = CHR ''-'' then - digits_val ds else digits_val ds)"
    and r: "INT_MIN \<le> x \<and> x \<le> INT_MAX"
    by (auto simp: extract_int_def Let_def t_def u_def ds_def split: if_splits)
  have "takeWhile is_digit u = u" using rest by (simp add: takeWhile_eq_all_conv)
  then have u: "u = ds" unfolding ds_def by (rule sym)
  have dig: "\<forall>c\<in>set ds. is_digit c" by (auto simp: ds_def dest: set_takeWhileD)
  have sp: "\<forall>c\<in>set (takeWhile is_space s). is_space c" by (auto dest: set_takeWhileD)
  have sgn: "sg = [] \<or> sg = ''-'' \<or> sg = ''+''" by (auto simp: sg_def)
  have "(t \<noteq> [] \<and> hd t = CHR ''-'') \<longleftrightarrow> sg = ''-''" by (auto simp: sg_def)
  with x have x': "x = (if sg = ''-'' then - digits_val ds else digits_val ds)"
    by (simp only:)
  have "s = takeWhile is_space s @ sg @ ds" using s t u by simp
  then show ?thesis using sp sgn ne dig x' r by blast
qed

lemma extract_int_shape:
  assumes "\<forall>c\<in>set ws. is_space c" "sg = [] \<or> sg = ''-'' \<or> sg = ''+''" "ds \<noteq> []"
    "\<forall>c\<in>set ds. is_digit c"
    "x = (if sg = ''-'' then - digits_val ds else digits_val ds)" "INT_MIN \<le> x" "x \<le> INT_MAX"
  shows "extract_int (ws @ sg @ ds) = Some x"
proof -
  have hd_ds: "is_digit (hd ds)" using assms(3,4) by (cases ds) auto
  then have nsp: "\<not> is_space (hd ds)" using space_not_digit by blast
  have nsg: "hd ds \<noteq> CHR ''-'' \<and> hd ds \<noteq> CHR ''+''" using hd_ds by (auto simp: is_digit_def)
  have "sg @ ds \<noteq> [] \<and> \<not> is_space (hd (sg @ ds))"
    using assms(2,3) nsp by (auto simp: is_space_def)
  then have t: "dropWhile is_space (ws @ sg @ ds) = sg @ ds"
    using assms(1) by (cases "sg @ ds") (auto simp: dropWhile_append3)
  have tk: "takeWhile is_digit ds = ds" "dropWhile is_digit ds = []"
    using assms(4) by simp_all
  show ?thesis
    using assms(2) 
  proof (elim disjE)
    assume "sg = []"
    then show ?thesis using t nsg assms(3,5,6,7) by (simp add: extract_int_def Let_def tk)
  next
    assume "sg = ''-''"
    then show ?thesis using t assms(3,5,6,7) by (simp add: extract_int_def Let_def tk)
  next
    assume "sg = ''+''"
    then show ?thesis using t assms(3,5,6,7) by (simp add: extract_int_def Let_def tk)
  qed
qed

lemma readIntInRange_turn_Inr:
  "readIntInRange_turn lo hi g = Inr x \<longleftrightarrow>
     (\<exists>l. g = Some l \<and> extract_int (strip_cr l) = Some x \<and> lo \<le> x \<and> x \<le> hi)"
  by (auto simp: readIntInRange_turn_def split: option.splits)

lemma readIntInRange_Some:
  "readIntInRange lo hi inp = Some (x, rest) \<Longrightarrow>
     \<exists>pre g. inp = pre @ g # rest \<and> readIntInRange_turn lo hi g = Inr x
        \<and> (\<forall>g'\<in>set pre. \<exists>r. readIntInRange_turn lo hi g' = Inl r)"
proof (induction inp)
  case Nil
  then show ?case by simp
next
  case (Cons g inp)
  show ?case
  proof (cases "readIntInRange_turn lo hi g")
    case (Inl r)
    with Cons.prems have "readIntInRange lo hi inp = Some (x, rest)" by simp
    from Cons.IH [OF this] obtain pre g' where
      "inp = pre @ g' # rest" "readIntInRange_turn lo hi g' = Inr x"
      "\<forall>g'\<in>set pre. \<exists>r. readIntInRange_turn lo hi g' = Inl r" by blast
    with Inl have "g # inp = (g # pre) @ g' # rest \<and> readIntInRange_turn lo hi g' = Inr x
        \<and> (\<forall>g'\<in>set (g # pre). \<exists>r. readIntInRange_turn lo hi g' = Inl r)" by simp
    then show ?thesis by blast
  next
    case (Inr y)
    with Cons.prems have "y = x" "inp = rest" by simp_all
    with Inr have "g # inp = [] @ g # rest \<and> readIntInRange_turn lo hi g = Inr x
        \<and> (\<forall>g'\<in>set []. \<exists>r. readIntInRange_turn lo hi g' = Inl r)" by simp
    then show ?thesis by blast
  qed
qed

lemma readIntInRange_returns_iff:
  "(\<exists>res. readIntInRange lo hi inp = Some res) \<longleftrightarrow>
     (\<exists>g\<in>set inp. \<exists>x. readIntInRange_turn lo hi g = Inr x)"
  by (induction inp) (auto split: sum.splits)

text \<open>
  C8. When \<open>readIntInRange\<close> returns \<open>x\<close> for the range from \<open>lo\<close> to \<open>hi\<close>, then
  \<open>lo \<le> x \<le> hi\<close>, and the line it returned on is white space, an optional sign and
  one or more digits with nothing after them (apart from one \<open>\r\<close>), of value \<open>x\<close>;
  every read before it was turned down. A failed read (end of input) makes the loop ask
  again, and so does every line that does not hold an integer of the range. The loop
  returns exactly when some read to come is acceptable.
\<close>

theorem readIntInRange_contract:
  "(readIntInRange lo hi inp = Some (x, rest) \<longrightarrow>
      lo \<le> x \<and> x \<le> hi \<and> INT_MIN \<le> x \<and> x \<le> INT_MAX
      \<and> (\<exists>pre l ws sg ds.
            inp = pre @ Some l # rest
            \<and> (\<forall>g\<in>set pre. \<forall>y. readIntInRange_turn lo hi g \<noteq> Inr y)
            \<and> strip_cr l = ws @ sg @ ds \<and> (\<forall>c\<in>set ws. is_space c)
            \<and> (sg = [] \<or> sg = ''-'' \<or> sg = ''+'') \<and> ds \<noteq> [] \<and> (\<forall>c\<in>set ds. is_digit c)
            \<and> x = (if sg = ''-'' then - digits_val ds else digits_val ds)))
   \<and> readIntInRange lo hi (None # inp) = readIntInRange lo hi inp
   \<and> ((\<forall>y. extract_int (strip_cr l') = Some y \<longrightarrow> y < lo \<or> hi < y) \<longrightarrow>
        readIntInRange lo hi (Some l' # inp) = readIntInRange lo hi inp)
   \<and> ((\<exists>res. readIntInRange lo hi inp = Some res) \<longleftrightarrow>
        (\<exists>l\<in>set inp. \<exists>y. readIntInRange_turn lo hi l = Inr y))"
proof (intro conjI impI)
  assume ret: "readIntInRange lo hi inp = Some (x, rest)"
  from readIntInRange_Some [OF ret] obtain pre g where
    inp: "inp = pre @ g # rest" and g: "readIntInRange_turn lo hi g = Inr x"
    and pre: "\<forall>g'\<in>set pre. \<exists>r. readIntInRange_turn lo hi g' = Inl r" by blast
  from g obtain l where l: "g = Some l" "extract_int (strip_cr l) = Some x" "lo \<le> x" "x \<le> hi"
    by (auto simp: readIntInRange_turn_Inr)
  from extract_int_Some [OF l(2)] obtain ws sg ds where
    sh: "strip_cr l = ws @ sg @ ds" "\<forall>c\<in>set ws. is_space c"
      "sg = [] \<or> sg = ''-'' \<or> sg = ''+''" "ds \<noteq> []" "\<forall>c\<in>set ds. is_digit c"
      "x = (if sg = ''-'' then - digits_val ds else digits_val ds)"
    and r: "INT_MIN \<le> x" "x \<le> INT_MAX" by blast
  show "lo \<le> x" "x \<le> hi" "INT_MIN \<le> x" "x \<le> INT_MAX" using l r by simp_all
  have pre': "\<forall>g\<in>set pre. \<forall>y. readIntInRange_turn lo hi g \<noteq> Inr y"
    using pre by fastforce
  have "inp = pre @ Some l # rest" using inp l(1) by simp
  with pre' sh show "\<exists>pre l ws sg ds.
            inp = pre @ Some l # rest
            \<and> (\<forall>g\<in>set pre. \<forall>y. readIntInRange_turn lo hi g \<noteq> Inr y)
            \<and> strip_cr l = ws @ sg @ ds \<and> (\<forall>c\<in>set ws. is_space c)
            \<and> (sg = [] \<or> sg = ''-'' \<or> sg = ''+'') \<and> ds \<noteq> [] \<and> (\<forall>c\<in>set ds. is_digit c)
            \<and> x = (if sg = ''-'' then - digits_val ds else digits_val ds)"
    by blast
next
  show "readIntInRange lo hi (None # inp) = readIntInRange lo hi inp"
    by (simp add: readIntInRange_turn_def)
next
  assume "\<forall>y. extract_int (strip_cr l') = Some y \<longrightarrow> y < lo \<or> hi < y"
  then show "readIntInRange lo hi (Some l' # inp) = readIntInRange lo hi inp"
    by (auto simp: readIntInRange_turn_def split: option.splits)
next
  show "(\<exists>res. readIntInRange lo hi inp = Some res) \<longleftrightarrow>
        (\<exists>l\<in>set inp. \<exists>y. readIntInRange_turn lo hi l = Inr y)"
    by (rule readIntInRange_returns_iff)
qed

theorem readIntInRange_contract_witness:
  "readIntInRange 1 20 [None, Some ''abc'', Some ''7 '', Some ''99'', Some ''0'', Some [CHR ''3'', CHR 0x0D], Some ''4'']
     = Some (3, [Some ''4''])
   \<and> (1::int) \<le> 3 \<and> (3::int) \<le> 20
   \<and> extract_int (strip_cr ''99'') = Some 99 \<and> (20::int) < 99
   \<and> readIntInRange 1 20 [Some ''99'', None] = None"
  using readIntInRange_contract [of 1 20
      "[None, Some ''abc'', Some ''7 '', Some ''99'', Some ''0'', Some [CHR ''3'', CHR 0x0D], Some ''4'']"
      3 "[Some ''4'']" "''99''"]
  by (simp add: input_simps)

subsection \<open>The best seller\<close>

lemma best_scan_prefix:
  "k \<le> length m \<Longrightarrow>
     (k = 0 \<and> foldl (\<lambda>best i. case best of None \<Rightarrow> Some i
                        | Some b \<Rightarrow> if sold (m ! i) > sold (m ! b) then Some i else best)
                 None [0..<k] = None)
     \<or> (\<exists>b<k. foldl (\<lambda>best i. case best of None \<Rightarrow> Some i
                        | Some b \<Rightarrow> if sold (m ! i) > sold (m ! b) then Some i else best)
                 None [0..<k] = Some b
            \<and> (\<forall>j<k. sold (m ! j) \<le> sold (m ! b)) \<and> (\<forall>j<b. sold (m ! j) < sold (m ! b)))"
proof (induction k)
  case 0
  then show ?case by simp
next
  case (Suc k)
  let ?f = "\<lambda>best i. case best of None \<Rightarrow> Some i
                        | Some b \<Rightarrow> if sold (m ! i) > sold (m ! b) then Some i else best"
  from Suc have "k \<le> length m" by simp
  from Suc.IH [OF this] show ?case
  proof (elim disjE conjE exE)
    assume "k = 0" "foldl ?f None [0..<k] = None"
    then show ?thesis by simp
  next
    fix b assume b: "b < k" "foldl ?f None [0..<k] = Some b"
      "\<forall>j<k. sold (m ! j) \<le> sold (m ! b)" "\<forall>j<b. sold (m ! j) < sold (m ! b)"
    show ?thesis
    proof (cases "sold (m ! k) > sold (m ! b)")
      case True
      then have "foldl ?f None [0..<Suc k] = Some k" using b(2) by simp
      moreover have "\<forall>j<Suc k. sold (m ! j) \<le> sold (m ! k)"
        using b(3) True by (auto simp: less_Suc_eq intro: order_trans less_imp_le)
      moreover have "\<forall>j<k. sold (m ! j) < sold (m ! k)"
        using b(3) True by (auto intro: le_less_trans)
      ultimately show ?thesis by blast
    next
      case False
      then have "foldl ?f None [0..<Suc k] = Some b" using b(2) by simp
      moreover have "\<forall>j<Suc k. sold (m ! j) \<le> sold (m ! b)"
        using b(3) False by (auto simp: less_Suc_eq)
      ultimately show ?thesis using b(1,4) by (metis less_Suc_eq)
    qed
  qed
qed

lemma best_scan_first_max:
  "m \<noteq> [] \<Longrightarrow> \<exists>b<length m. best_scan m = Some b
      \<and> (\<forall>j<length m. sold (m ! j) \<le> sold (m ! b)) \<and> (\<forall>j<b. sold (m ! j) < sold (m ! b))"
  using best_scan_prefix [of "length m" m] unfolding best_scan_def by auto

lemma best_scan_Nil: "best_scan [] = None"
  by (simp add: best_scan_def)

text \<open>
  C6. When some item has been sold, the summary names as best seller an item whose sold
  count is the highest of the catalog, and every item before it in the catalog has a
  strictly smaller count: among items sharing the maximum the first one is reported.
  When every sold count is zero, the line is the no-sales message.
\<close>

theorem best_seller_first_max:
  "((\<exists>it\<in>set m. sold it > 0) \<longrightarrow>
      (\<exists>b<length m. best_seller_line m = BestSeller (name (m ! b)) (sold (m ! b))
          \<and> (\<forall>j<length m. sold (m ! j) \<le> sold (m ! b))
          \<and> (\<forall>j<b. sold (m ! j) < sold (m ! b))))
   \<and> ((\<forall>it\<in>set m. sold it = 0) \<longrightarrow> best_seller_line m = NoSales)"
proof (intro conjI impI)
  assume "\<exists>it\<in>set m. sold it > 0"
  then obtain i where i: "i < length m" "sold (m ! i) > 0" by (auto simp: in_set_conv_nth)
  then have "m \<noteq> []" by auto
  from best_scan_first_max [OF this] obtain b where
    b: "b < length m" "best_scan m = Some b" "\<forall>j<length m. sold (m ! j) \<le> sold (m ! b)"
      "\<forall>j<b. sold (m ! j) < sold (m ! b)" by blast
  from b(3) i have "sold (m ! b) > 0" by fastforce
  then have "best_seller_line m = BestSeller (name (m ! b)) (sold (m ! b))"
    using b(2) by (simp add: best_seller_line_def)
  with b show "\<exists>b<length m. best_seller_line m = BestSeller (name (m ! b)) (sold (m ! b))
          \<and> (\<forall>j<length m. sold (m ! j) \<le> sold (m ! b))
          \<and> (\<forall>j<b. sold (m ! j) < sold (m ! b))" by blast
next
  assume z: "\<forall>it\<in>set m. sold it = 0"
  show "best_seller_line m = NoSales"
  proof (cases "m = []")
    case True
    then show ?thesis by (simp add: best_seller_line_def best_scan_Nil)
  next
    case False
    from best_scan_first_max [OF this] obtain b where "b < length m" "best_scan m = Some b"
      by blast
    with z show ?thesis by (simp add: best_seller_line_def)
  qed
qed

theorem best_seller_first_max_witness:
  "(\<exists>it\<in>set [(mk_item ''A'' 10 18 ''Snacks'')\<lparr>sold := 2\<rparr>,
               (mk_item ''B'' 10 15 ''Snacks'')\<lparr>sold := 5\<rparr>,
               (mk_item ''C'' 10 15 ''Snacks'')\<lparr>sold := 5\<rparr>]. sold it > 0)
   \<and> best_seller_line [(mk_item ''A'' 10 18 ''Snacks'')\<lparr>sold := 2\<rparr>,
               (mk_item ''B'' 10 15 ''Snacks'')\<lparr>sold := 5\<rparr>,
               (mk_item ''C'' 10 15 ''Snacks'')\<lparr>sold := 5\<rparr>] = BestSeller ''B'' 5
   \<and> list_all (\<lambda>it. sold it = 0) initial_menu
   \<and> best_seller_line initial_menu = NoSales"
  using best_seller_first_max [of "[(mk_item ''A'' 10 18 ''Snacks'')\<lparr>sold := 2\<rparr>,
               (mk_item ''B'' 10 15 ''Snacks'')\<lparr>sold := 5\<rparr>,
               (mk_item ''C'' 10 15 ''Snacks'')\<lparr>sold := 5\<rparr>]"]
    best_seller_first_max [of initial_menu]
  by (simp add: initial_menu_def mk_item_def best_seller_line_def best_scan_def upt_unfold)

subsection \<open>The run and its invariant\<close>

lemmas run_simps = run_def initial_def new_customer_def generateReceiptNumber_def step_def
  on_name_def on_dine_def on_category_def on_item_def on_qty_def on_add_more_def
  on_continue_def on_next_def close_order_def add_line_def category_of_def typed_def
  initial_menu_def mk_item_def listAvailableInCategory_def

lemma run_Nil: "run t0 [] = initial t0"
  by (simp add: run_def)

lemma run_snoc: "run t0 (es @ [e]) = step (run t0 es) e"
  by (simp add: run_def)

lemma run_append: "run t0 (es @ es') = foldl step (run t0 es) es'"
  by (simp add: run_def)

lemma step_cases:
  obtains
    (stay) "step s e = s"
  | (name) nm where "at s = AskName" "step s e = s\<lparr>order := (order s)\<lparr>customerName := nm\<rparr>, at := AskDine\<rparr>"
  | (dine) d where "at s = AskDine" "step s e = s\<lparr>order := (order s)\<lparr>dineOption := d\<rparr>, at := AskCategory\<rparr>"
  | (to_item) cat where "at s = AskCategory" "listAvailableInCategory (menu s) cat \<noteq> []"
      "step s e = s\<lparr>at := AskItem (listAvailableInCategory (menu s) cat)\<rparr>"
  | (to_qty) av k c where "at s = AskItem av" "k < length av" "av ! k = Some c"
      "step s e = s\<lparr>at := AskQty c (qty (menu s ! c))\<rparr>"
  | (moved) p where "p = AskCategory \<or> p = AskContinue \<or> p = NameLoop"
      "at s \<noteq> AskNext" "at s \<noteq> Finished" "step s e = s\<lparr>at := p\<rparr>"
  | (commit) c mx q where "at s = AskQty c mx" "readIntInRange_turn 1 mx (got e) = Inr q"
      "step s e = (add_line c q s)\<lparr>at := AskAddMore\<rparr>"
  | (close) "at s = AskCategory \<or> at s = AskContinue" "step s e = close_order s"
  | (new) "at s = AskNext" "readYesNo_turn (got e) = Inr True" "step s e = new_customer (millis e) s"
  | (finished) "at s = AskNext" "readYesNo_turn (got e) = Inr False" "step s e = s\<lparr>at := Finished\<rparr>"
proof (cases "at s")
  case AskName
  show ?thesis
  proof (cases "got e")
    case None
    then have "step s e = s\<lparr>at := NameLoop\<rparr>" using AskName by (simp add: step_def on_name_def)
    then show ?thesis using AskName by (intro that(6) [of NameLoop]) simp_all
  next
    case (Some l)
    show ?thesis
    proof (cases "readLineTrimmed (got e) = []")
      case True
      then have "step s e = s" using AskName Some by (simp add: step_def on_name_def)
      then show ?thesis by (rule that(1))
    next
      case False
      then have "step s e = s\<lparr>order := (order s)\<lparr>customerName := readLineTrimmed (got e)\<rparr>,
          at := AskDine\<rparr>"
        using AskName Some by (simp add: step_def on_name_def)
      then show ?thesis using AskName by (rule that(2) [rotated])
    qed
  qed
next
  case AskDine
  show ?thesis
  proof (cases "readYesNo_turn (got e)")
    case (Inl r)
    then have "step s e = s" using AskDine by (simp add: step_def on_dine_def)
    then show ?thesis by (rule that(1))
  next
    case (Inr b)
    then have "step s e = s\<lparr>order := (order s)\<lparr>dineOption := (if b then ''Eat-In'' else ''Take-Out'')\<rparr>,
        at := AskCategory\<rparr>"
      using AskDine by (simp add: step_def on_dine_def)
    then show ?thesis using AskDine by (rule that(3) [rotated])
  qed
next
  case AskCategory
  show ?thesis
  proof (cases "readIntInRange_turn 0 4 (got e)")
    case (Inl r)
    then have "step s e = s" using AskCategory by (simp add: step_def on_category_def)
    then show ?thesis by (rule that(1))
  next
    case (Inr x)
    show ?thesis
    proof (cases "x = 0")
      case True
      then have "step s e = close_order s"
        using AskCategory Inr by (simp add: step_def on_category_def)
      then show ?thesis using AskCategory that(8) by simp
    next
      case False
      let ?av = "listAvailableInCategory (menu s) (category_of x)"
      show ?thesis
      proof (cases "category_of x = [] \<or> isCategorySoldOut (menu s) (category_of x) \<or> ?av = []")
        case True
        then have "step s e = s"
          using AskCategory Inr False by (auto simp: step_def on_category_def Let_def)
        then show ?thesis by (rule that(1))
      next
        case no: False
        then have "step s e = s\<lparr>at := AskItem ?av\<rparr>"
          using AskCategory Inr False by (simp add: step_def on_category_def Let_def)
        then show ?thesis using AskCategory no that(4) [of "category_of x"] by simp
      qed
    qed
  qed
next
  case (AskItem av)
  show ?thesis
  proof (cases "readIntInRange_turn 0 (int (length av)) (got e)")
    case (Inl r)
    then show ?thesis using AskItem that(1) by (simp add: step_def on_item_def)
  next
    case (Inr x)
    then have rng: "0 \<le> x" "x \<le> int (length av)"
      by (auto simp: readIntInRange_turn_def split: option.splits if_splits)
    show ?thesis
    proof (cases "x = 0")
      case True
      then have "step s e = s\<lparr>at := AskCategory\<rparr>"
        using AskItem Inr by (simp add: step_def on_item_def)
      then show ?thesis using AskItem by (intro that(6) [of AskCategory]) simp_all
    next
      case False
      then have k: "nat (x - 1) < length av" using rng by linarith
      show ?thesis
      proof (cases "av ! nat (x - 1)")
        case None
        then have "step s e = s\<lparr>at := AskCategory\<rparr>"
          using AskItem Inr False by (simp add: step_def on_item_def)
        then show ?thesis using AskItem by (intro that(6) [of AskCategory]) simp_all
      next
        case (Some c)
        then show ?thesis using AskItem Inr False k that(5) [of av "nat (x - 1)" c]
          by (simp add: step_def on_item_def)
      qed
    qed
  qed
next
  case (AskQty c mx)
  show ?thesis
  proof (cases "readIntInRange_turn 1 mx (got e)")
    case (Inl r)
    then show ?thesis using AskQty that(1) by (simp add: step_def on_qty_def)
  next
    case (Inr q)
    then show ?thesis using AskQty that(7) [of c mx q] by (simp add: step_def on_qty_def)
  qed
next
  case AskAddMore
  show ?thesis
  proof (cases "readYesNo_turn (got e)")
    case (Inl r)
    then show ?thesis using AskAddMore that(1) by (simp add: step_def on_add_more_def)
  next
    case (Inr b)
    show ?thesis
    proof (cases b)
      case True
      then have "step s e = s\<lparr>at := AskCategory\<rparr>"
        using AskAddMore Inr by (simp add: step_def on_add_more_def)
      then show ?thesis using AskAddMore by (intro that(6) [of AskCategory]) simp_all
    next
      case False
      then have "step s e = s\<lparr>at := AskContinue\<rparr>"
        using AskAddMore Inr by (simp add: step_def on_add_more_def)
      then show ?thesis using AskAddMore by (intro that(6) [of AskContinue]) simp_all
    qed
  qed
next
  case AskContinue
  show ?thesis
  proof (cases "readYesNo_turn (got e)")
    case (Inl r)
    then show ?thesis using AskContinue that(1) by (simp add: step_def on_continue_def)
  next
    case (Inr b)
    show ?thesis
    proof (cases b)
      case True
      then have "step s e = s\<lparr>at := AskCategory\<rparr>"
        using AskContinue Inr by (simp add: step_def on_continue_def)
      then show ?thesis using AskContinue by (intro that(6) [of AskCategory]) simp_all
    next
      case False
      then have "step s e = close_order s"
        using AskContinue Inr by (simp add: step_def on_continue_def)
      then show ?thesis using AskContinue by (intro that(8)) simp_all
    qed
  qed
next
  case AskNext
  show ?thesis
  proof (cases "readYesNo_turn (got e)")
    case (Inl r)
    then show ?thesis using AskNext that(1) by (simp add: step_def on_next_def)
  next
    case (Inr b)
    then show ?thesis using AskNext that(9) that(10)
      by (cases b) (simp_all add: step_def on_next_def)
  qed
next
  case Finished
  then show ?thesis using that(1) by (simp add: step_def)
next
  case NameLoop
  then show ?thesis using that(1) by (simp add: step_def)
qed

lemma initial_menu_fresh: "\<forall>it\<in>set initial_menu. sold it = 0 \<and> 0 \<le> qty it"
  by (simp add: initial_menu_def mk_item_def)

lemma menu_ok_initial: "menu_ok initial_menu"
  using initial_menu_fresh by (simp add: menu_ok_def)

lemma invariant_initial: "invariant (initial t0)"
  by (simp add: invariant_def initial_def new_customer_def generateReceiptNumber_def
      menu_ok_initial prompt_ok_def history_ok_def lines_ok_def)

lemma menu_ok_commit:
  assumes "menu_ok m" "c < length m" "1 \<le> q" "q \<le> qty (m ! c)"
  shows "menu_ok (m[c := (m ! c)\<lparr>qty := qty (m ! c) - q, sold := sold (m ! c) + q\<rparr>])"
  using assms unfolding menu_ok_def
  by (auto simp: nth_list_update)

lemma turn_range:
  "readIntInRange_turn lo hi g = Inr x \<Longrightarrow> lo \<le> x \<and> x \<le> hi"
  by (auto simp: readIntInRange_turn_def split: option.splits if_splits)

lemma available_ok:
  "p \<in> set (listAvailableInCategory m cat) \<Longrightarrow> \<exists>c<length m. p = Some c \<and> 0 < qty (m ! c)"
  by (auto simp: listAvailableInCategory_filter)

lemma invariant_step:
  assumes "invariant s"
  shows "invariant (step s e)"
proof (cases rule: step_cases [where s = s and e = e])
  case stay
  then show ?thesis using assms by simp
next
  case (name nm)
  then show ?thesis using assms
    by (simp add: invariant_def prompt_ok_def history_ok_def)
next
  case (dine d)
  then show ?thesis using assms
    by (simp add: invariant_def prompt_ok_def history_ok_def)
next
  case (to_item cat)
  then show ?thesis using assms available_ok [of _ "menu s" cat]
    by (simp add: invariant_def prompt_ok_def history_ok_def)
next
  case (to_qty av k c)
  from to_qty(1) assms have "\<forall>p\<in>set av. \<exists>c<length (menu s). p = Some c \<and> 0 < qty (menu s ! c)"
    by (simp add: invariant_def prompt_ok_def)
  moreover have "av ! k \<in> set av" using to_qty(2) by simp
  ultimately have "c < length (menu s) \<and> 0 < qty (menu s ! c)" using to_qty(3) by fastforce
  then show ?thesis using to_qty(4) assms
    by (simp add: invariant_def prompt_ok_def history_ok_def)
next
  case (moved p)
  then show ?thesis using assms
    by (auto simp: invariant_def prompt_ok_def history_ok_def)
next
  case (commit c mx q)
  from commit(1) assms have c: "c < length (menu s)" "mx = qty (menu s ! c)"
    by (simp_all add: invariant_def prompt_ok_def)
  from turn_range [OF commit(2)] have q: "1 \<le> q" "q \<le> mx" by simp_all
  have m: "menu_ok (menu s)" and h: "history_ok s" using assms by (simp_all add: invariant_def)
  have "menu_ok (menu (step s e))"
    using menu_ok_commit [OF m c(1) q(1)] q(2) c(2) commit(3) by (simp add: add_line_def)
  moreover have "prompt_ok (step s e)" using commit(3) by (simp add: prompt_ok_def add_line_def)
  moreover have "c < length initial_menu" using c(1) m by (simp add: menu_ok_def)
  then have "history_ok (step s e)"
    using h q(1) commit(3) by (auto simp: history_ok_def add_line_def lines_ok_def)
  ultimately show ?thesis by (simp add: invariant_def)
next
  case close
  then show ?thesis using assms
    by (auto simp: invariant_def prompt_ok_def history_ok_def close_order_def)
next
  case new
  then show ?thesis using assms
    by (auto simp: invariant_def prompt_ok_def history_ok_def new_customer_def
        generateReceiptNumber_def lines_ok_def)
next
  case finished
  then show ?thesis using assms
    by (auto simp: invariant_def prompt_ok_def history_ok_def)
qed

lemma invariant_run: "invariant (run t0 es)"
  by (induction es rule: rev_induct) (simp_all add: run_Nil run_snoc invariant_initial invariant_step)

subsection \<open>Stock\<close>

lemma sold_step:
  assumes "invariant s"
  shows "sold (menu s ! i) \<le> sold (menu (step s e) ! i)"
proof (cases rule: step_cases [where s = s and e = e])
  case (commit c mx q)
  from turn_range [OF commit(2)] have "1 \<le> q" by simp
  then show ?thesis using commit(3)
    by (cases "c < length (menu s)") (simp_all add: add_line_def nth_list_update list_update_beyond)
qed (simp_all add: close_order_def new_customer_def generateReceiptNumber_def)

lemma sold_mono: "sold (menu (run t0 es) ! i) \<le> sold (menu (run t0 (es @ es')) ! i)"
proof (induction es' rule: rev_induct)
  case Nil
  then show ?case by simp
next
  case (snoc e es')
  have "sold (menu (run t0 (es @ es')) ! i) \<le> sold (menu (step (run t0 (es @ es')) e) ! i)"
    by (rule sold_step [OF invariant_run])
  then show ?case using snoc by (simp add: run_snoc [symmetric])
qed

text \<open>
  C1. At every point \<open>run t0 es\<close> of a run and for every item of the catalog, remaining
  stock plus sold count is the item's initial stock, the remaining stock is not negative
  (nor is the sold count), and the sold count at any later point \<open>run t0 (es @ es')\<close> is
  at least what it is now.
\<close>

theorem stock_conservation:
  assumes "i < length initial_menu"
  shows "length (menu (run t0 es)) = length initial_menu
    \<and> qty (menu (run t0 es) ! i) + sold (menu (run t0 es) ! i) = qty (initial_menu ! i)
    \<and> 0 \<le> qty (menu (run t0 es) ! i)
    \<and> 0 \<le> sold (menu (run t0 es) ! i)
    \<and> sold (menu (run t0 es) ! i) \<le> sold (menu (run t0 (es @ es')) ! i)"
proof -
  have "menu_ok (menu (run t0 es))" using invariant_run [of t0 es] by (simp add: invariant_def)
  then show ?thesis using assms sold_mono [of t0 es i es'] by (simp add: menu_ok_def)
qed


theorem stock_conservation_witness:
  "(0::nat) < length initial_menu
   \<and> qty (initial_menu ! 0) = 20
   \<and> qty (menu (run 7 (map (typed 7) [''Ann'', ''y'', ''1'', ''1'', ''25'', ''3''])) ! 0) = 17
   \<and> sold (menu (run 7 (map (typed 7) [''Ann'', ''y'', ''1'', ''1'', ''25'', ''3''])) ! 0) = 3
   \<and> sold (menu (run 7 (map (typed 7) [''Ann'', ''y'', ''1'', ''1''])) ! 0) = 0"
  using stock_conservation [of 0 7 "map (typed 7) [''Ann'', ''y'', ''1'', ''1'']"
      "map (typed 7) [''25'', ''3'']"]
  by code_simp

text \<open>
  C2. The lines of the order in progress change only when a new customer starts (they
  become empty) or when the quantity prompt returns: then the new line is appended with
  a quantity between 1 and the stock of the chosen item, the bound of the prompt is that
  stock as it is immediately before the decrement, and the stock after the decrement is
  not negative.
\<close>

theorem no_oversell:
  "lines (order (step (run t0 es) e)) \<noteq> lines (order (run t0 es)) \<longrightarrow>
     (at (run t0 es) = AskNext \<and> lines (order (step (run t0 es) e)) = [])
     \<or> (\<exists>c mx q. at (run t0 es) = AskQty c mx
           \<and> readIntInRange_turn 1 mx (got e) = Inr q
           \<and> lines (order (step (run t0 es) e))
               = lines (order (run t0 es)) @ [\<lparr>item = Some c, quantity = q\<rparr>]
           \<and> c < length (menu (run t0 es))
           \<and> mx = qty (menu (run t0 es) ! c)
           \<and> 1 \<le> q \<and> q \<le> qty (menu (run t0 es) ! c)
           \<and> qty (menu (step (run t0 es) e) ! c) = qty (menu (run t0 es) ! c) - q
           \<and> 0 \<le> qty (menu (step (run t0 es) e) ! c))"
proof (cases rule: step_cases [where s = "run t0 es" and e = e])
  case (commit c mx q)
  have "prompt_ok (run t0 es)" using invariant_run [of t0 es] by (simp add: invariant_def)
  with commit(1) have c: "c < length (menu (run t0 es))" "mx = qty (menu (run t0 es) ! c)"
    by (simp_all add: prompt_ok_def)
  from turn_range [OF commit(2)] have q: "1 \<le> q" "q \<le> mx" by simp_all
  have "lines (order (step (run t0 es) e))
               = lines (order (run t0 es)) @ [\<lparr>item = Some c, quantity = q\<rparr>]"
    using commit(3) by (simp add: add_line_def)
  moreover have "qty (menu (step (run t0 es) e) ! c) = qty (menu (run t0 es) ! c) - q"
    using commit(3) c(1) by (simp add: add_line_def)
  ultimately show ?thesis using commit(1,2) c q by auto
next
  case new
  then show ?thesis by (simp add: new_customer_def generateReceiptNumber_def)
qed (simp_all add: close_order_def)

theorem no_oversell_witness:
  "lines (order (step (run 7 (map (typed 7) [''Ann'', ''y'', ''1'', ''1'', ''25''])) (typed 7 ''3'')))
     \<noteq> lines (order (run 7 (map (typed 7) [''Ann'', ''y'', ''1'', ''1'', ''25''])))
   \<and> at (run 7 (map (typed 7) [''Ann'', ''y'', ''1'', ''1'', ''25''])) = AskQty 0 20
   \<and> lines (order (step (run 7 (map (typed 7) [''Ann'', ''y'', ''1'', ''1'', ''25''])) (typed 7 ''3'')))
       = [\<lparr>item = Some 0, quantity = 3\<rparr>]
   \<and> qty (menu (step (run 7 (map (typed 7) [''Ann'', ''y'', ''1'', ''1'', ''25''])) (typed 7 ''3'')) ! 0) = 17"
proof -
  have c: "lines (order (step (run 7 (map (typed 7) [''Ann'', ''y'', ''1'', ''1'', ''25''])) (typed 7 ''3'')))
     \<noteq> lines (order (run 7 (map (typed 7) [''Ann'', ''y'', ''1'', ''1'', ''25''])))
   \<and> at (run 7 (map (typed 7) [''Ann'', ''y'', ''1'', ''1'', ''25''])) = AskQty 0 20
   \<and> lines (order (step (run 7 (map (typed 7) [''Ann'', ''y'', ''1'', ''1'', ''25''])) (typed 7 ''3'')))
       = [\<lparr>item = Some 0, quantity = 3\<rparr>]
   \<and> qty (menu (step (run 7 (map (typed 7) [''Ann'', ''y'', ''1'', ''1'', ''25''])) (typed 7 ''3'')) ! 0) = 17"
    by code_simp
  from c no_oversell [of 7 "map (typed 7) [''Ann'', ''y'', ''1'', ''1'', ''25'']" "typed 7 ''3''"]
  show ?thesis by blast
qed

subsection \<open>The order history\<close>

text \<open>
  C4. The selection loop is left by the step that reaches the question for the next
  customer. If the order has no line there, history and customers-served counter stay
  as they are; if it has a line, the order is appended and the counter grows by exactly
  one. No other step touches either, so the history never holds an order without lines.
\<close>

theorem cancelled_order_excluded:
  "(\<forall>ord\<in>set (allOrders (run t0 es)). lines ord \<noteq> [])
   \<and> customersServed (run t0 es) = int (length (allOrders (run t0 es)))
   \<and> (at (step (run t0 es) e) = AskNext \<and> at (run t0 es) \<noteq> AskNext \<longrightarrow>
        (lines (order (run t0 es)) = [] \<longrightarrow>
           allOrders (step (run t0 es) e) = allOrders (run t0 es)
           \<and> customersServed (step (run t0 es) e) = customersServed (run t0 es))
        \<and> (lines (order (run t0 es)) \<noteq> [] \<longrightarrow>
           allOrders (step (run t0 es) e) = allOrders (run t0 es) @ [order (run t0 es)]
           \<and> customersServed (step (run t0 es) e) = customersServed (run t0 es) + 1))
   \<and> (\<not> (at (step (run t0 es) e) = AskNext \<and> at (run t0 es) \<noteq> AskNext) \<longrightarrow>
        allOrders (step (run t0 es) e) = allOrders (run t0 es)
        \<and> customersServed (step (run t0 es) e) = customersServed (run t0 es))"
proof -
  have h: "history_ok (run t0 es)" using invariant_run [of t0 es] by (simp add: invariant_def)
  have "(at (step (run t0 es) e) = AskNext \<and> at (run t0 es) \<noteq> AskNext \<longrightarrow>
        (lines (order (run t0 es)) = [] \<longrightarrow>
           allOrders (step (run t0 es) e) = allOrders (run t0 es)
           \<and> customersServed (step (run t0 es) e) = customersServed (run t0 es))
        \<and> (lines (order (run t0 es)) \<noteq> [] \<longrightarrow>
           allOrders (step (run t0 es) e) = allOrders (run t0 es) @ [order (run t0 es)]
           \<and> customersServed (step (run t0 es) e) = customersServed (run t0 es) + 1))
   \<and> (\<not> (at (step (run t0 es) e) = AskNext \<and> at (run t0 es) \<noteq> AskNext) \<longrightarrow>
        allOrders (step (run t0 es) e) = allOrders (run t0 es)
        \<and> customersServed (step (run t0 es) e) = customersServed (run t0 es))"
  proof (cases rule: step_cases [where s = "run t0 es" and e = e])
    case close
    then show ?thesis by (auto simp: close_order_def)
  next
    case (commit c mx q)
    then show ?thesis by (simp add: add_line_def)
  next
    case new
    then show ?thesis by (simp add: new_customer_def generateReceiptNumber_def)
  next
    case (moved p)
    then show ?thesis by auto
  qed simp_all
  with h show ?thesis by (simp add: history_ok_def)
qed

theorem cancelled_order_excluded_witness:
  "at (step (run 7 (map (typed 7) [''Ann'', ''y''])) (typed 7 ''0'')) = AskNext
   \<and> at (run 7 (map (typed 7) [''Ann'', ''y''])) \<noteq> AskNext
   \<and> lines (order (run 7 (map (typed 7) [''Ann'', ''y'']))) = []
   \<and> allOrders (step (run 7 (map (typed 7) [''Ann'', ''y''])) (typed 7 ''0'')) = []
   \<and> customersServed (step (run 7 (map (typed 7) [''Ann'', ''y''])) (typed 7 ''0'')) = 0
   \<and> at (step (run 7 (map (typed 7) [''Bo'', ''n'', ''2'', ''1'', ''2'', ''n''])) (typed 7 ''n'')) = AskNext
   \<and> at (run 7 (map (typed 7) [''Bo'', ''n'', ''2'', ''1'', ''2'', ''n''])) \<noteq> AskNext
   \<and> lines (order (run 7 (map (typed 7) [''Bo'', ''n'', ''2'', ''1'', ''2'', ''n''])))
       = [\<lparr>item = Some 4, quantity = 2\<rparr>]
   \<and> length (allOrders (step (run 7 (map (typed 7) [''Bo'', ''n'', ''2'', ''1'', ''2'', ''n''])) (typed 7 ''n''))) = 1
   \<and> customersServed (step (run 7 (map (typed 7) [''Bo'', ''n'', ''2'', ''1'', ''2'', ''n''])) (typed 7 ''n'')) = 1"
  using cancelled_order_excluded [of 7 "map (typed 7) [''Ann'', ''y'']" "typed 7 ''0''"]
    cancelled_order_excluded [of 7 "map (typed 7) [''Bo'', ''n'', ''2'', ''1'', ''2'', ''n'']" "typed 7 ''n''"]
  by code_simp

subsection \<open>Totals\<close>

lemma foldl_add_sum_list: "foldl (\<lambda>t x. t + f x) a xs = (a::int) + sum_list (map f xs)"
  by (induction xs arbitrary: a) simp_all

lemma total_sum_list: "total m ord = (\<Sum>l\<leftarrow>lines ord. subtotal m l)"
  by (simp add: total_def foldl_add_sum_list)

lemma totalRevenue_sum_list: "totalRevenue s = (\<Sum>ord\<leftarrow>allOrders s. total (menu s) ord)"
  by (simp add: totalRevenue_def foldl_add_sum_list)

lemma subtotal_catalog_price:
  assumes "menu_ok m" "lines_ok ls"
  shows "(\<Sum>l\<leftarrow>ls. subtotal m l)
     = (\<Sum>l\<leftarrow>ls. case item l of Some c \<Rightarrow> quantity l * price (initial_menu ! c) | None \<Rightarrow> 0)"
proof (rule arg_cong [where f = sum_list], rule map_cong [OF refl])
  fix l assume "l \<in> set ls"
  with assms(2) obtain c where "c < length initial_menu" "item l = Some c"
    by (auto simp: lines_ok_def)
  with assms(1) show "subtotal m l
      = (case item l of Some c \<Rightarrow> quantity l * price (initial_menu ! c) | None \<Rightarrow> 0)"
    by (simp add: subtotal_def menu_ok_def)
qed

text \<open>
  C5. At every point of a run, the total of each order of the history is the sum over
  its lines of quantity times the price of the item, which at every point of the run
  (so also when the line was selected) is the price the catalog started with; and
  the total revenue that the summary computes is the sum of the totals of the orders of
  the history.
\<close>

theorem totals_correct:
  "(\<forall>ord\<in>set (allOrders (run t0 es)).
       total (menu (run t0 es)) ord
         = (\<Sum>l\<leftarrow>lines ord. case item l of Some c \<Rightarrow> quantity l * price (initial_menu ! c)
                                | None \<Rightarrow> 0)
       \<and> (\<forall>l\<in>set (lines ord). \<exists>c<length initial_menu. item l = Some c))
   \<and> (\<forall>c<length initial_menu. price (menu (run t0 es) ! c) = price (initial_menu ! c))
   \<and> totalRevenue (run t0 es)
       = (\<Sum>ord\<leftarrow>allOrders (run t0 es). total (menu (run t0 es)) ord)"
proof -
  have m: "menu_ok (menu (run t0 es))" and h: "history_ok (run t0 es)"
    using invariant_run [of t0 es] by (simp_all add: invariant_def)
  have "\<forall>ord\<in>set (allOrders (run t0 es)).
       total (menu (run t0 es)) ord
         = (\<Sum>l\<leftarrow>lines ord. case item l of Some c \<Rightarrow> quantity l * price (initial_menu ! c)
                                | None \<Rightarrow> 0)
       \<and> (\<forall>l\<in>set (lines ord). \<exists>c<length initial_menu. item l = Some c)"
  proof
    fix ord assume "ord \<in> set (allOrders (run t0 es))"
    with h have l: "lines_ok (lines ord)" by (simp add: history_ok_def)
    then have "\<forall>l\<in>set (lines ord). \<exists>c<length initial_menu. item l = Some c"
      by (auto simp: lines_ok_def)
    then show "total (menu (run t0 es)) ord
         = (\<Sum>l\<leftarrow>lines ord. case item l of Some c \<Rightarrow> quantity l * price (initial_menu ! c)
                                | None \<Rightarrow> 0)
       \<and> (\<forall>l\<in>set (lines ord). \<exists>c<length initial_menu. item l = Some c)"
      using subtotal_catalog_price [OF m l] by (simp add: total_sum_list)
  qed
  moreover have "\<forall>c<length initial_menu. price (menu (run t0 es) ! c) = price (initial_menu ! c)"
    using m by (simp add: menu_ok_def)
  ultimately show ?thesis using totalRevenue_sum_list [of "run t0 es"] by blast
qed

theorem totals_correct_witness:
  "allOrders (run 7 (map (typed 7) [''Ann'', ''y'', ''1'', ''1'', ''3'', ''y'', ''3'', ''2'', ''1'', ''n'', ''n'']))
     = [\<lparr>customerName = ''Ann'', dineOption = ''Eat-In'',
         lines = [\<lparr>item = Some 0, quantity = 3\<rparr>, \<lparr>item = Some 8, quantity = 1\<rparr>],
         receiptNo = 8\<rparr>]
   \<and> total (menu (run 7 (map (typed 7) [''Ann'', ''y'', ''1'', ''1'', ''3'', ''y'', ''3'', ''2'', ''1'', ''n'', ''n''])))
        \<lparr>customerName = ''Ann'', dineOption = ''Eat-In'',
         lines = [\<lparr>item = Some 0, quantity = 3\<rparr>, \<lparr>item = Some 8, quantity = 1\<rparr>],
         receiptNo = 8\<rparr> = 3 * 140 + 1 * 220
   \<and> (0::nat) < length initial_menu \<and> (8::nat) < length initial_menu
   \<and> totalRevenue (run 7 (map (typed 7) [''Ann'', ''y'', ''1'', ''1'', ''3'', ''y'', ''3'', ''2'', ''1'', ''n'', ''n''])) = 640"
proof -
  have c: "allOrders (run 7 (map (typed 7) [''Ann'', ''y'', ''1'', ''1'', ''3'', ''y'', ''3'', ''2'', ''1'', ''n'', ''n'']))
     = [\<lparr>customerName = ''Ann'', dineOption = ''Eat-In'',
         lines = [\<lparr>item = Some 0, quantity = 3\<rparr>, \<lparr>item = Some 8, quantity = 1\<rparr>],
         receiptNo = 8\<rparr>]
   \<and> total (menu (run 7 (map (typed 7) [''Ann'', ''y'', ''1'', ''1'', ''3'', ''y'', ''3'', ''2'', ''1'', ''n'', ''n''])))
        \<lparr>customerName = ''Ann'', dineOption = ''Eat-In'',
         lines = [\<lparr>item = Some 0, quantity = 3\<rparr>, \<lparr>item = Some 8, quantity = 1\<rparr>],
         receiptNo = 8\<rparr> = 3 * 140 + 1 * 220
   \<and> (0::nat) < length initial_menu \<and> (8::nat) < length initial_menu
   \<and> totalRevenue (run 7 (map (typed 7) [''Ann'', ''y'', ''1'', ''1'', ''3'', ''y'', ''3'', ''2'', ''1'', ''n'', ''n''])) = 640"
    by code_simp
  from c totals_correct [of 7 "map (typed 7) [''Ann'', ''y'', ''1'', ''1'', ''3'', ''y'', ''3'', ''2'', ''1'', ''n'', ''n'']"]
  show ?thesis by blast
qed

subsection \<open>The range of the amounts\<close>

text \<open>
  The revenue of a day lies between 0 and 41100 pesos, the value of the whole initial
  stock. Every amount the program forms is a sum of non-negative subtotals that is part
  of this one, so all of them are whole numbers far below \<open>2^53\<close>.
\<close>

lemma units_of_append: "units_of i (ls @ ls') = units_of i ls + units_of i ls'"
  by (simp add: units_of_def)

lemma sold_ok_initial: "sold_ok (initial t0)"
  using initial_menu_fresh
  by (simp add: sold_ok_def initial_def new_customer_def generateReceiptNumber_def units_of_def)

lemma sold_ok_step:
  assumes "sold_ok s" "invariant s"
  shows "sold_ok (step s e)"
proof (cases rule: step_cases [where s = s and e = e])
  case stay
  then show ?thesis using assms by simp
next
  case (name nm)
  then show ?thesis using assms(1) by (simp add: sold_ok_def)
next
  case (dine d)
  then show ?thesis using assms(1) by (simp add: sold_ok_def)
next
  case (to_item cat)
  then show ?thesis using assms(1) by (simp add: sold_ok_def)
next
  case (to_qty av k c)
  then show ?thesis using assms(1) by (simp add: sold_ok_def)
next
  case (moved p)
  then show ?thesis using assms(1) by (auto simp: sold_ok_def)
next
  case (commit c mx q)
  have "c < length (menu s)" using commit(1) assms(2) by (simp add: invariant_def prompt_ok_def)
  then show ?thesis using commit(1,3) assms(1)
    by (simp add: sold_ok_def add_line_def nth_list_update units_of_append) (simp add: units_of_def)
next
  case close
  then show ?thesis using assms(1)
    by (auto simp: sold_ok_def close_order_def units_of_append units_of_def)
next
  case new
  then show ?thesis using assms(1)
    by (simp add: sold_ok_def new_customer_def generateReceiptNumber_def units_of_def)
next
  case finished
  then show ?thesis using assms(1) by (simp add: sold_ok_def)
qed

lemma sold_ok_run: "sold_ok (run t0 es)"
  by (induction es rule: rev_induct)
    (simp_all add: run_Nil run_snoc sold_ok_initial sold_ok_step invariant_run)


lemma sum_list_concat_map:
  "sum_list (concat (map f xs)) = (\<Sum>x\<leftarrow>xs. sum_list (f x :: int list))"
  by (induction xs) simp_all

lemma pick_one:
  assumes "c < n"
  shows "(\<Sum>i\<leftarrow>[0..<n]. f i * (if Some c = Some i then (q::int) else 0)) = f c * q"
proof -
  have "(\<Sum>i\<leftarrow>[0..<n]. f i * (if Some c = Some i then q else 0))
      = (\<Sum>i\<in>{0..<n}. f i * (if c = i then q else 0))"
    by (simp add: interv_sum_list_conv_sum_set_nat)
  also have "\<dots> = (\<Sum>i\<in>{0..<n}. if c = i then f i * q else 0)"
    by (rule sum.cong) auto
  also have "\<dots> = f c * q" using assms by simp
  finally show ?thesis .
qed

lemma revenue_by_item:
  assumes "lines_ok ls"
  shows "(\<Sum>l\<leftarrow>ls. case item l of Some c \<Rightarrow> quantity l * price (initial_menu ! c) | None \<Rightarrow> 0)
     = (\<Sum>i\<leftarrow>[0..<length initial_menu]. price (initial_menu ! i) * units_of i ls)"
  using assms
proof (induction ls)
  case Nil
  then show ?case by (simp add: units_of_def)
next
  case (Cons l ls)
  from Cons.prems obtain c where c: "c < length initial_menu" "item l = Some c"
    by (auto simp: lines_ok_def)
  from Cons.prems have "lines_ok ls" by (simp add: lines_ok_def)
  note ih = Cons.IH [OF this]
  have "(\<Sum>i\<leftarrow>[0..<length initial_menu]. price (initial_menu ! i) * units_of i (l # ls))
      = (\<Sum>i\<leftarrow>[0..<length initial_menu].
            price (initial_menu ! i) * (if Some c = Some i then quantity l else 0)
            + price (initial_menu ! i) * units_of i ls)"
    using c(2) by (simp add: units_of_def distrib_left)
  also have "\<dots> = price (initial_menu ! c) * quantity l
      + (\<Sum>i\<leftarrow>[0..<length initial_menu]. price (initial_menu ! i) * units_of i ls)"
    using pick_one [OF c(1), of "\<lambda>i. price (initial_menu ! i)" "quantity l"]
    by (simp only: sum_list_addf)
  finally show ?case using ih c(2) by (simp add: mult.commute)
qed

lemma lines_ok_concat:
  "\<forall>ord\<in>set os. lines_ok (lines ord) \<Longrightarrow> lines_ok (concat (map lines os))"
  by (auto simp: lines_ok_def)

lemma units_of_nonneg: "lines_ok ls \<Longrightarrow> 0 \<le> units_of i ls"
  unfolding units_of_def by (rule sum_list_nonneg) (auto simp: lines_ok_def)

lemma catalog_value:
  "(\<Sum>i\<leftarrow>[0..<length initial_menu]. price (initial_menu ! i) * qty (initial_menu ! i)) = 41100"
  by (simp add: initial_menu_def mk_item_def upt_unfold)

lemma prices_nonneg: "\<forall>i<length initial_menu. 0 \<le> price (initial_menu ! i)"
proof -
  have "\<forall>it\<in>set initial_menu. 0 \<le> price it" by (simp add: initial_menu_def mk_item_def)
  then show ?thesis by simp
qed

lemma revenue_bounded:
  "0 \<le> totalRevenue (run t0 es) \<and> totalRevenue (run t0 es) \<le> 41100"
proof -
  let ?s = "run t0 es"
  let ?L = "concat (map lines (allOrders ?s))"
  have m: "menu_ok (menu ?s)" and h: "history_ok ?s"
    using invariant_run [of t0 es] by (simp_all add: invariant_def)
  have so: "sold_ok ?s" by (rule sold_ok_run)
  have lo: "\<forall>ord\<in>set (allOrders ?s). lines_ok (lines ord)" using h by (simp add: history_ok_def)
  have L: "lines_ok ?L" by (rule lines_ok_concat [OF lo])
  have "totalRevenue ?s = (\<Sum>ord\<leftarrow>allOrders ?s. \<Sum>l\<leftarrow>lines ord.
      case item l of Some c \<Rightarrow> quantity l * price (initial_menu ! c) | None \<Rightarrow> 0)"
    unfolding totalRevenue_sum_list
    by (rule arg_cong [where f = sum_list], rule map_cong [OF refl])
      (use lo m in \<open>simp add: total_sum_list subtotal_catalog_price\<close>)
  also have "\<dots> = (\<Sum>l\<leftarrow>?L. case item l of Some c \<Rightarrow> quantity l * price (initial_menu ! c) | None \<Rightarrow> 0)"
    by (simp add: map_concat sum_list_concat_map comp_def)
  also have "\<dots> = (\<Sum>i\<leftarrow>[0..<length initial_menu]. price (initial_menu ! i) * units_of i ?L)"
    by (rule revenue_by_item [OF L])
  finally have rev: "totalRevenue ?s
      = (\<Sum>i\<leftarrow>[0..<length initial_menu]. price (initial_menu ! i) * units_of i ?L)" .
  have up: "\<forall>i<length initial_menu. units_of i ?L \<le> qty (initial_menu ! i)"
  proof (intro allI impI)
    fix i assume i: "i < length initial_menu"
    have "0 \<le> units_of i (lines (order ?s))"
      using h by (simp add: history_ok_def units_of_nonneg)
    then have "units_of i ?L \<le> sold (menu ?s ! i)" using so i by (simp add: sold_ok_def)
    also have "\<dots> \<le> qty (initial_menu ! i)" using m i by (fastforce simp: menu_ok_def)
    finally show "units_of i ?L \<le> qty (initial_menu ! i)" .
  qed
  have "(\<Sum>i\<leftarrow>[0..<length initial_menu]. price (initial_menu ! i) * units_of i ?L)
      \<le> (\<Sum>i\<leftarrow>[0..<length initial_menu]. price (initial_menu ! i) * qty (initial_menu ! i))"
    by (rule sum_list_mono) (use up prices_nonneg in \<open>simp add: mult_left_mono\<close>)
  then have hi: "totalRevenue ?s \<le> 41100" using rev catalog_value by simp
  have "0 \<le> (\<Sum>i\<leftarrow>[0..<length initial_menu]. price (initial_menu ! i) * units_of i ?L)"
    by (rule sum_list_nonneg) (use prices_nonneg units_of_nonneg [OF L] in auto)
  then show ?thesis using hi rev by simp
qed

subsection \<open>The frame of a commit\<close>

lemma menu_step_frame:
  assumes "invariant s"
  shows "length (menu (step s e)) = length (menu s)
     \<and> (\<forall>c mx. at s = AskQty c mx \<longrightarrow> (\<forall>i. i \<noteq> c \<longrightarrow> menu (step s e) ! i = menu s ! i))
     \<and> ((\<forall>c mx. at s \<noteq> AskQty c mx) \<longrightarrow> menu (step s e) = menu s)"
proof (cases rule: step_cases [where s = s and e = e])
  case (commit c mx q)
  then show ?thesis by (simp add: add_line_def)
qed (auto simp: close_order_def new_customer_def generateReceiptNumber_def)

text \<open>
  C10. At every point of a run each item has the name, price and category the catalog
  started with, and a step keeps the length of the catalog and these three fields of
  every item. The step that commits a quantity leaves every item but the chosen one as it
  is, and a step from any other prompt leaves the whole catalog as it is. So the
  subtotal of the committed line, computed through its pointer at any later point of
  the run, is the quantity times the price the item had at the quantity prompt.
\<close>

theorem commit_frame:
  "length (menu (step (run t0 es) e)) = length (menu (run t0 es))
   \<and> (\<forall>i<length initial_menu.
         name (menu (run t0 es) ! i) = name (initial_menu ! i)
         \<and> price (menu (run t0 es) ! i) = price (initial_menu ! i)
         \<and> category (menu (run t0 es) ! i) = category (initial_menu ! i))
   \<and> (\<forall>i<length (menu (run t0 es)).
         name (menu (step (run t0 es) e) ! i) = name (menu (run t0 es) ! i)
         \<and> price (menu (step (run t0 es) e) ! i) = price (menu (run t0 es) ! i)
         \<and> category (menu (step (run t0 es) e) ! i) = category (menu (run t0 es) ! i))
   \<and> (\<forall>c mx. at (run t0 es) = AskQty c mx \<longrightarrow>
         (\<forall>i. i \<noteq> c \<longrightarrow> menu (step (run t0 es) e) ! i = menu (run t0 es) ! i))
   \<and> ((\<forall>c mx. at (run t0 es) \<noteq> AskQty c mx) \<longrightarrow> menu (step (run t0 es) e) = menu (run t0 es))
   \<and> (\<forall>c mx q. at (run t0 es) = AskQty c mx \<and> readIntInRange_turn 1 mx (got e) = Inr q \<longrightarrow>
         lines (order (step (run t0 es) e))
           = lines (order (run t0 es)) @ [\<lparr>item = Some c, quantity = q\<rparr>]
         \<and> (\<forall>es'. subtotal (menu (run t0 (es @ e # es'))) \<lparr>item = Some c, quantity = q\<rparr>
                  = price (menu (run t0 es) ! c) * q))"
proof -
  have inv: "invariant (run t0 es)" by (rule invariant_run)
  have m: "menu_ok (menu (run t0 es))" using inv by (simp add: invariant_def)
  have m': "menu_ok (menu (step (run t0 es) e))"
    using invariant_step [OF inv, of e] by (simp add: invariant_def)
  have fields: "\<forall>i<length (menu (run t0 es)).
         name (menu (step (run t0 es) e) ! i) = name (menu (run t0 es) ! i)
         \<and> price (menu (step (run t0 es) e) ! i) = price (menu (run t0 es) ! i)
         \<and> category (menu (step (run t0 es) e) ! i) = category (menu (run t0 es) ! i)"
    using m m' by (simp add: menu_ok_def)
  have line: "\<forall>c mx q. at (run t0 es) = AskQty c mx \<and> readIntInRange_turn 1 mx (got e) = Inr q \<longrightarrow>
         lines (order (step (run t0 es) e))
           = lines (order (run t0 es)) @ [\<lparr>item = Some c, quantity = q\<rparr>]
         \<and> (\<forall>es'. subtotal (menu (run t0 (es @ e # es'))) \<lparr>item = Some c, quantity = q\<rparr>
                  = price (menu (run t0 es) ! c) * q)"
  proof (intro allI impI)
    fix c mx q
    assume a: "at (run t0 es) = AskQty c mx \<and> readIntInRange_turn 1 mx (got e) = Inr q"
    have "prompt_ok (run t0 es)" using inv by (simp add: invariant_def)
    with a m have c: "c < length initial_menu" by (simp add: prompt_ok_def menu_ok_def)
    have l: "lines (order (step (run t0 es) e))
           = lines (order (run t0 es)) @ [\<lparr>item = Some c, quantity = q\<rparr>]"
      using a by (simp add: step_def on_qty_def add_line_def)
    have "\<forall>es'. subtotal (menu (run t0 (es @ e # es'))) \<lparr>item = Some c, quantity = q\<rparr>
                  = price (menu (run t0 es) ! c) * q"
    proof
      fix es'
      have "menu_ok (menu (run t0 (es @ e # es')))"
        using invariant_run [of t0 "es @ e # es'"] by (simp add: invariant_def)
      with m c show "subtotal (menu (run t0 (es @ e # es'))) \<lparr>item = Some c, quantity = q\<rparr>
                  = price (menu (run t0 es) ! c) * q"
        by (simp add: subtotal_def menu_ok_def)
    qed
    with l show "lines (order (step (run t0 es) e))
           = lines (order (run t0 es)) @ [\<lparr>item = Some c, quantity = q\<rparr>]
         \<and> (\<forall>es'. subtotal (menu (run t0 (es @ e # es'))) \<lparr>item = Some c, quantity = q\<rparr>
                  = price (menu (run t0 es) ! c) * q)" by blast
  qed
  have whole: "\<forall>i<length initial_menu.
         name (menu (run t0 es) ! i) = name (initial_menu ! i)
         \<and> price (menu (run t0 es) ! i) = price (initial_menu ! i)
         \<and> category (menu (run t0 es) ! i) = category (initial_menu ! i)"
    using m by (simp add: menu_ok_def)
  show ?thesis using menu_step_frame [OF inv, of e] whole fields line by blast
qed

theorem commit_frame_witness:
  "at (run 7 (map (typed 7) [''Ann'', ''y'', ''1'', ''2''])) = AskQty 1 20
   \<and> readIntInRange_turn 1 20 (got (typed 7 ''4'')) = Inr 4
   \<and> (1::nat) < length (menu (run 7 (map (typed 7) [''Ann'', ''y'', ''1'', ''2''])))
   \<and> menu (step (run 7 (map (typed 7) [''Ann'', ''y'', ''1'', ''2''])) (typed 7 ''4''))
       = initial_menu[1 := (initial_menu ! 1)\<lparr>qty := 16, sold := 4\<rparr>]
   \<and> menu (run 7 (map (typed 7) [''Ann'', ''y'', ''1'', ''2''])) = initial_menu
   \<and> subtotal (menu (run 7 (map (typed 7) [''Ann'', ''y'', ''1'', ''2'']
              @ typed 7 ''4'' # map (typed 7) [''y'', ''1'', ''2'', ''5''])))
        \<lparr>item = Some 1, quantity = 4\<rparr> = 150 * 4"
proof -
  have c: "at (run 7 (map (typed 7) [''Ann'', ''y'', ''1'', ''2''])) = AskQty 1 20
   \<and> readIntInRange_turn 1 20 (got (typed 7 ''4'')) = Inr 4
   \<and> (1::nat) < length (menu (run 7 (map (typed 7) [''Ann'', ''y'', ''1'', ''2''])))
   \<and> menu (step (run 7 (map (typed 7) [''Ann'', ''y'', ''1'', ''2''])) (typed 7 ''4''))
       = initial_menu[1 := (initial_menu ! 1)\<lparr>qty := 16, sold := 4\<rparr>]
   \<and> menu (run 7 (map (typed 7) [''Ann'', ''y'', ''1'', ''2''])) = initial_menu
   \<and> subtotal (menu (run 7 (map (typed 7) [''Ann'', ''y'', ''1'', ''2'']
              @ typed 7 ''4'' # map (typed 7) [''y'', ''1'', ''2'', ''5''])))
        \<lparr>item = Some 1, quantity = 4\<rparr> = 150 * 4"
    by code_simp
  from c commit_frame [of 7 "map (typed 7) [''Ann'', ''y'', ''1'', ''2'']" "typed 7 ''4''"]
  show ?thesis by blast
qed

subsection \<open>Receipt numbers\<close>

text \<open>
  C9, as the claim states it, fails: the number is drawn when the order is created.
  The first order has its number and the counter stands at 1 before any read; a customer
  who leaves with no line keeps the number 6 drawn for the order, which is not
  appended to the history, and the next order gets the counter value 2.
\<close>

theorem cancelled_order_has_receipt_number:
  "lines (order (initial 5)) = [] \<and> receiptNo (order (initial 5)) = 6 \<and> counter (initial 5) = 1
   \<and> at (run 5 (map (typed 5) [''Ann'', ''y'', ''0''])) = AskNext
   \<and> lines (order (run 5 (map (typed 5) [''Ann'', ''y'', ''0'']))) = []
   \<and> allOrders (run 5 (map (typed 5) [''Ann'', ''y'', ''0''])) = []
   \<and> receiptNo (order (run 5 (map (typed 5) [''Ann'', ''y'', ''0'']))) = 6
   \<and> counter (run 5 (map (typed 5) [''Ann'', ''y'', ''0''])) = 1
   \<and> map receiptNo (allOrders (run 5 (map (typed 5)
        [''Ann'', ''y'', ''0'', ''y'', ''Bo'', ''y'', ''1'', ''1'', ''2'', ''n'', ''n'']))) = [7]
   \<and> counter (run 5 (map (typed 5)
        [''Ann'', ''y'', ''0'', ''y'', ''Bo'', ''y'', ''1'', ''1'', ''2'', ''n'', ''n''])) = 2"
  by code_simp

text \<open>
  C9, amended. The receipt number is assigned when the order is created, before its
  first line: at the start, and at each step that answers yes to the question for the
  next customer, which draws one number whether or not the order before it had lines.
  No other step changes the counter or the number of the order in progress; closing an
  order appends it to the history, with the number it was created with, only when it
  has a line: an order without lines is never appended, and no order of the history is
  without lines.
\<close>

theorem receipt_assigned_at_creation:
  "counter (initial t0) = 1 \<and> receiptNo (order (initial t0)) = t0 mod 1000000000 + 1
   \<and> lines (order (initial t0)) = []
   \<and> (at (run t0 es) = AskNext \<and> readYesNo_turn (got e) = Inr True \<longrightarrow>
        counter (step (run t0 es) e) = counter (run t0 es) + 1
        \<and> receiptNo (order (step (run t0 es) e))
            = millis e mod 1000000000 + (counter (run t0 es) + 1)
        \<and> lines (order (step (run t0 es) e)) = []
        \<and> allOrders (step (run t0 es) e) = allOrders (run t0 es))
   \<and> (\<not> (at (run t0 es) = AskNext \<and> readYesNo_turn (got e) = Inr True) \<longrightarrow>
        counter (step (run t0 es) e) = counter (run t0 es)
        \<and> receiptNo (order (step (run t0 es) e)) = receiptNo (order (run t0 es))
        \<and> (allOrders (step (run t0 es) e) = allOrders (run t0 es)
            \<or> lines (order (run t0 es)) \<noteq> []
              \<and> allOrders (step (run t0 es) e) = allOrders (run t0 es) @ [order (run t0 es)]))
   \<and> (lines (order (run t0 es)) = [] \<longrightarrow>
        allOrders (step (run t0 es) e) = allOrders (run t0 es))
   \<and> (\<forall>ord\<in>set (allOrders (run t0 es)). lines ord \<noteq> [])"
proof -
  have i: "counter (initial t0) = 1 \<and> receiptNo (order (initial t0)) = t0 mod 1000000000 + 1
   \<and> lines (order (initial t0)) = []"
    by (simp add: initial_def new_customer_def generateReceiptNumber_def)
  have s: "(at (run t0 es) = AskNext \<and> readYesNo_turn (got e) = Inr True \<longrightarrow>
        counter (step (run t0 es) e) = counter (run t0 es) + 1
        \<and> receiptNo (order (step (run t0 es) e))
            = millis e mod 1000000000 + (counter (run t0 es) + 1)
        \<and> lines (order (step (run t0 es) e)) = []
        \<and> allOrders (step (run t0 es) e) = allOrders (run t0 es))
   \<and> (\<not> (at (run t0 es) = AskNext \<and> readYesNo_turn (got e) = Inr True) \<longrightarrow>
        counter (step (run t0 es) e) = counter (run t0 es)
        \<and> receiptNo (order (step (run t0 es) e)) = receiptNo (order (run t0 es))
        \<and> (allOrders (step (run t0 es) e) = allOrders (run t0 es)
            \<or> lines (order (run t0 es)) \<noteq> []
              \<and> allOrders (step (run t0 es) e) = allOrders (run t0 es) @ [order (run t0 es)]))"
  proof (cases "at (run t0 es) = AskNext \<and> readYesNo_turn (got e) = Inr True")
    case True
    then show ?thesis
      by (simp add: step_def on_next_def new_customer_def generateReceiptNumber_def)
  next
    case False
    have "counter (step (run t0 es) e) = counter (run t0 es)
        \<and> receiptNo (order (step (run t0 es) e)) = receiptNo (order (run t0 es))
        \<and> (allOrders (step (run t0 es) e) = allOrders (run t0 es)
            \<or> lines (order (run t0 es)) \<noteq> []
              \<and> allOrders (step (run t0 es) e) = allOrders (run t0 es) @ [order (run t0 es)])"
    proof (cases rule: step_cases [where s = "run t0 es" and e = e])
      case new
      then show ?thesis using False by simp
    next
      case close
      then show ?thesis by (auto simp: close_order_def)
    next
      case (commit c mx q)
      then show ?thesis by (simp add: add_line_def)
    qed simp_all
    with False show ?thesis by blast
  qed
  have h: "\<forall>ord\<in>set (allOrders (run t0 es)). lines ord \<noteq> []"
    using invariant_run [of t0 es] by (simp add: invariant_def history_ok_def)
  from s have n: "lines (order (run t0 es)) = [] \<longrightarrow>
        allOrders (step (run t0 es) e) = allOrders (run t0 es)"
    by blast
  from i s n h show ?thesis by blast
qed

theorem receipt_assigned_at_creation_witness:
  "at (run 5 (map (typed 5) [''Ann'', ''y'', ''0''])) = AskNext
   \<and> readYesNo_turn (got (typed 9 ''y'')) = Inr True
   \<and> lines (order (run 5 (map (typed 5) [''Ann'', ''y'', ''0'']))) = []
   \<and> counter (run 5 (map (typed 5) [''Ann'', ''y'', ''0''])) = 1
   \<and> counter (step (run 5 (map (typed 5) [''Ann'', ''y'', ''0''])) (typed 9 ''y'')) = 2
   \<and> receiptNo (order (step (run 5 (map (typed 5) [''Ann'', ''y'', ''0''])) (typed 9 ''y''))) = 11
   \<and> at (run 5 (map (typed 5) [''Ann'', ''y''])) \<noteq> AskNext
   \<and> counter (step (run 5 (map (typed 5) [''Ann'', ''y''])) (typed 5 ''0'')) = 1
   \<and> receiptNo (order (step (run 5 (map (typed 5) [''Ann'', ''y''])) (typed 5 ''0''))) = 6
   \<and> lines (order (run 5 (map (typed 5) [''Ann'', ''y'']))) = []
   \<and> allOrders (step (run 5 (map (typed 5) [''Ann'', ''y''])) (typed 5 ''0'')) = []
   \<and> allOrders (run 5 (map (typed 5) [''Ann'', ''y''])) = []"
proof -
  have c: "at (run 5 (map (typed 5) [''Ann'', ''y'', ''0''])) = AskNext
   \<and> readYesNo_turn (got (typed 9 ''y'')) = Inr True
   \<and> lines (order (run 5 (map (typed 5) [''Ann'', ''y'', ''0'']))) = []
   \<and> counter (run 5 (map (typed 5) [''Ann'', ''y'', ''0''])) = 1
   \<and> counter (step (run 5 (map (typed 5) [''Ann'', ''y'', ''0''])) (typed 9 ''y'')) = 2
   \<and> receiptNo (order (step (run 5 (map (typed 5) [''Ann'', ''y'', ''0''])) (typed 9 ''y''))) = 11
   \<and> at (run 5 (map (typed 5) [''Ann'', ''y''])) \<noteq> AskNext
   \<and> counter (step (run 5 (map (typed 5) [''Ann'', ''y''])) (typed 5 ''0'')) = 1
   \<and> receiptNo (order (step (run 5 (map (typed 5) [''Ann'', ''y''])) (typed 5 ''0''))) = 6
   \<and> lines (order (run 5 (map (typed 5) [''Ann'', ''y'']))) = []
   \<and> allOrders (step (run 5 (map (typed 5) [''Ann'', ''y''])) (typed 5 ''0'')) = []
   \<and> allOrders (run 5 (map (typed 5) [''Ann'', ''y''])) = []"
    by code_simp
  from c receipt_assigned_at_creation [of 5 "map (typed 5) [''Ann'', ''y'', ''0'']" "typed 9 ''y''"]
    receipt_assigned_at_creation [of 5 "map (typed 5) [''Ann'', ''y'']" "typed 5 ''0''"]
  show ?thesis by blast
qed

text \<open>
  C3, as the claim states it, fails: the number is the clock residue plus the counter,
  and a residue that drops by one between two drawings cancels the step of the counter.
  Two orders get the same number when the system clock is set back by a millisecond
  between them, or when it passes a multiple of \<open>10^9\<close> milliseconds.
\<close>

theorem receipt_numbers_collide:
  "map receiptNo (allOrders (run 1761822000001
      (map (typed 1761822000001) [''Ann'', ''y'', ''1'', ''1'', ''1'', ''n'', ''n'']
       @ typed 1761822000000 ''y''
       # map (typed 1761822000000) [''Bo'', ''n'', ''1'', ''1'', ''1'', ''n'', ''n''])))
     = [822000002, 822000002]
   \<and> \<not> distinct (map receiptNo (allOrders (run 1761822000001
      (map (typed 1761822000001) [''Ann'', ''y'', ''1'', ''1'', ''1'', ''n'', ''n'']
       @ typed 1761822000000 ''y''
       # map (typed 1761822000000) [''Bo'', ''n'', ''1'', ''1'', ''1'', ''n'', ''n'']))))
   \<and> map receiptNo (allOrders (run 999999999
      (map (typed 999999999) [''Ann'', ''y'', ''1'', ''1'', ''1'', ''n'', ''n'']
       @ typed 1999999998 ''y''
       # map (typed 1999999998) [''Bo'', ''n'', ''1'', ''1'', ''1'', ''n'', ''n''])))
     = [1000000000, 1000000000]
   \<and> \<not> distinct (map receiptNo (allOrders (run 999999999
      (map (typed 999999999) [''Ann'', ''y'', ''1'', ''1'', ''1'', ''n'', ''n'']
       @ typed 1999999998 ''y''
       # map (typed 1999999998) [''Bo'', ''n'', ''1'', ''1'', ''1'', ''n'', ''n'']))))"
  by code_simp

lemma residue_less: "unat (t mod 1000000000 :: 64 word) < 1000000000"
  by (simp add: unat_mod)

lemma fst_tracked: "fst (tracked t0 es) = run t0 es"
  by (induction es rule: rev_induct) (simp_all add: tracked_def run_def)

lemma ledger_of_Nil: "ledger_of t0 [] = \<lparr>latest = t0, drawn = 1, filed = []\<rparr>"
  by (simp add: ledger_of_def tracked_def)

lemma ledger_of_snoc: "ledger_of t0 (es @ [e]) = ledger_step (run t0 es) e (ledger_of t0 es)"
  using fst_tracked [of t0 es] by (simp add: ledger_of_def tracked_def)

lemma ledger_ok_initial: "ledger_ok (initial t0) \<lparr>latest = t0, drawn = 1, filed = []\<rparr>"
  by (simp add: ledger_ok_def initial_def new_customer_def generateReceiptNumber_def)

lemma ledger_ok_step:
  assumes ok: "ledger_ok s g"
  shows "ledger_ok (step s e) (ledger_step s e g)"
proof (cases "at s = AskNext \<and> readYesNo_turn (got e) = Inr True")
  case True
  then have st: "step s e = new_customer (millis e) s" by (simp add: step_def on_next_def)
  have "\<forall>p\<in>set (filed g). snd p < drawn g + 1 \<and> snd p \<le> drawn g + 1"
    using ok by (fastforce simp: ledger_ok_def)
  then show ?thesis using True ok
    by (simp add: ledger_ok_def ledger_step_def st new_customer_def generateReceiptNumber_def
        add.commute)
next
  case False
  have ls: "ledger_step s e g
      = (if allOrders (step s e) \<noteq> allOrders s
         then g\<lparr>filed := filed g @ [(latest g, drawn g)]\<rparr> else g)"
    unfolding ledger_step_def using False by (rule if_not_P)
  show ?thesis
  proof (cases rule: step_cases [where s = s and e = e])
    case stay
    then show ?thesis using ok by (simp add: ls)
  next
    case (name nm)
    then show ?thesis using ok by (simp add: ls ledger_ok_def)
  next
    case (dine d)
    then show ?thesis using ok by (simp add: ls ledger_ok_def)
  next
    case (to_item cat)
    then show ?thesis using ok by (simp add: ls ledger_ok_def)
  next
    case (to_qty av k c)
    then show ?thesis using ok by (simp add: ls ledger_ok_def)
  next
    case (moved p)
    then show ?thesis using ok by (auto simp: ls ledger_ok_def)
  next
    case (commit c mx q)
    then show ?thesis using ok by (simp add: ls ledger_ok_def add_line_def)
  next
    case close
    show ?thesis
    proof (cases "lines (order s) = []")
      case True
      then have "step s e = s\<lparr>at := AskNext\<rparr>" using close(2) by (simp add: close_order_def)
      then show ?thesis using ok by (simp add: ls ledger_ok_def)
    next
      case ne: False
      then have st: "step s e = s\<lparr>allOrders := allOrders s @ [order s],
          customersServed := customersServed s + 1, at := AskNext\<rparr>"
        using close(2) by (simp add: close_order_def)
      have lt: "\<forall>p\<in>set (filed g). snd p < drawn g" using close(1) ok by (auto simp: ledger_ok_def)
      have g: "ledger_step s e g = g\<lparr>filed := filed g @ [(latest g, drawn g)]\<rparr>"
        using st by (simp add: ls)
      show ?thesis using ok lt unfolding g st
        by (auto simp: ledger_ok_def sorted_wrt_append less_imp_le)
    qed
  next
    case new
    then show ?thesis using False by simp
  next
    case finished
    then show ?thesis using ok by (simp add: ls ledger_ok_def)
  qed
qed

lemma ledger_ok_run: "ledger_ok (run t0 es) (ledger_of t0 es)"
proof (induction es rule: rev_induct)
  case Nil
  show ?case unfolding run_Nil ledger_of_Nil by (rule ledger_ok_initial)
next
  case (snoc e es)
  then show ?case unfolding run_snoc ledger_of_snoc by (rule ledger_ok_step)
qed

lemma unat_number:
  assumes "k + 1000000000 < 2 ^ 64"
  shows "unat (d mod 1000000000 + of_nat k :: 64 word) = unat (d mod 1000000000) + k"
proof -
  have k: "unat (of_nat k :: 64 word) = k" using assms by (simp add: unat_of_nat)
  have "unat (d mod 1000000000) + unat (of_nat k :: 64 word) < 2 ^ LENGTH(64)"
    using assms residue_less [of d] by (simp add: k)
  then have "unat (d mod 1000000000 + of_nat k) = unat (d mod 1000000000) + unat (of_nat k :: 64 word)"
    by (simp only: unat_add_lem)
  then show ?thesis by (simp add: k)
qed

lemma distinct_map_unat: "distinct (map unat xs) \<longleftrightarrow> distinct xs"
proof -
  have "inj_on (unat :: 'a::len word \<Rightarrow> nat) (set xs)"
    by (rule inj_on_subset [OF inj_unsigned]) simp
  then show ?thesis by (simp add: distinct_map)
qed

lemma sorted_sum_strict:
  "sorted (map f xs) \<Longrightarrow> sorted_wrt (<) (map g xs) \<Longrightarrow>
     sorted_wrt (<) (map (\<lambda>x. f x + g x :: nat) xs)"
  by (induction xs) (auto intro: add_le_less_mono)

text \<open>
  C3, amended. The receipt number of an order is the clock residue (milliseconds modulo
  \<open>10^9\<close>) at its creation plus the rank of its creation (1 for the first order
  created, cancelled orders counted), in 64-bit arithmetic; the ranks of the orders of
  the history ascend strictly. While fewer than \<open>2^64 - 10^9\<close> numbers have been drawn,
  the numbers of the history are pairwise distinct exactly when the sums of residue
  and rank are: two orders of the history share a number only when the residue at the
  later creation is below the residue at the earlier one by the difference of their
  ranks. In particular the numbers are pairwise distinct whenever the residues at the
  creations of the orders of the history do not go down, as when all orders are created
  in the same millisecond.
\<close>

theorem receipt_numbers_of_history:
  "map receiptNo (allOrders (run t0 es))
     = map (\<lambda>p. fst p mod 1000000000 + of_nat (snd p)) (filed (ledger_of t0 es))
   \<and> counter (run t0 es) = of_nat (drawn (ledger_of t0 es))
   \<and> sorted_wrt (<) (map snd (filed (ledger_of t0 es)))
   \<and> (\<forall>p\<in>set (filed (ledger_of t0 es)). 1 \<le> snd p \<and> snd p \<le> drawn (ledger_of t0 es))
   \<and> (drawn (ledger_of t0 es) + 1000000000 < 2 ^ 64 \<longrightarrow>
        (distinct (map receiptNo (allOrders (run t0 es)))
           \<longleftrightarrow> distinct (map (\<lambda>p. unat (fst p mod 1000000000) + snd p)
                           (filed (ledger_of t0 es)))))
   \<and> (drawn (ledger_of t0 es) + 1000000000 < 2 ^ 64
        \<and> sorted (map (\<lambda>p. unat (fst p mod 1000000000)) (filed (ledger_of t0 es))) \<longrightarrow>
        distinct (map receiptNo (allOrders (run t0 es))))"
proof -
  let ?g = "ledger_of t0 es"
  let ?n = "\<lambda>p :: 64 word \<times> nat. unat (fst p mod 1000000000) + snd p"
  have ok: "ledger_ok (run t0 es) ?g" by (rule ledger_ok_run)
  then have a: "map receiptNo (allOrders (run t0 es))
     = map (\<lambda>p. fst p mod 1000000000 + of_nat (snd p)) (filed ?g)"
    and b: "counter (run t0 es) = of_nat (drawn ?g)"
    and c: "sorted_wrt (<) (map snd (filed ?g))"
    and d: "\<forall>p\<in>set (filed ?g). 1 \<le> snd p \<and> snd p \<le> drawn ?g"
    by (simp_all add: ledger_ok_def)
  have e: "distinct (map receiptNo (allOrders (run t0 es))) \<longleftrightarrow> distinct (map ?n (filed ?g))"
    if bound: "drawn ?g + 1000000000 < 2 ^ 64"
  proof -
    have "map unat (map receiptNo (allOrders (run t0 es))) = map ?n (filed ?g)"
      unfolding a map_map
    proof (rule map_cong [OF refl])
      fix p assume "p \<in> set (filed ?g)"
      with d bound have "snd p + 1000000000 < 2 ^ 64" by fastforce
      then show "(unat \<circ> (\<lambda>p. fst p mod 1000000000 + of_nat (snd p))) p = ?n p"
        by (simp add: unat_number)
    qed
    then show ?thesis using distinct_map_unat [of "map receiptNo (allOrders (run t0 es))"]
      by simp
  qed
  have f: "distinct (map receiptNo (allOrders (run t0 es)))"
    if bound: "drawn ?g + 1000000000 < 2 ^ 64"
      and srt: "sorted (map (\<lambda>p. unat (fst p mod 1000000000)) (filed ?g))"
  proof -
    have "sorted_wrt (<) (map ?n (filed ?g))" by (rule sorted_sum_strict [OF srt c])
    then have "distinct (map ?n (filed ?g))" by (simp add: strict_sorted_iff)
    then show ?thesis using e [OF bound] by simp
  qed
  show ?thesis using a b c d e f by blast
qed

theorem receipt_numbers_of_history_witness:
  "filed (ledger_of 999999999
      (map (typed 999999999) [''Ann'', ''y'', ''1'', ''1'', ''1'', ''n'', ''n'', ''y'']
       @ map (typed 1000000500) [''Bo'', ''n'', ''1'', ''1'', ''1'', ''n'', ''n'']))
     = [(999999999, 1), (999999999, 2)]
   \<and> drawn (ledger_of 999999999
      (map (typed 999999999) [''Ann'', ''y'', ''1'', ''1'', ''1'', ''n'', ''n'', ''y'']
       @ map (typed 1000000500) [''Bo'', ''n'', ''1'', ''1'', ''1'', ''n'', ''n''])) = 2
   \<and> (2::nat) + 1000000000 < 2 ^ 64
   \<and> sorted (map (\<lambda>p. unat (fst p mod 1000000000)) [(999999999 :: 64 word, 1 :: nat), (999999999, 2)])
   \<and> map receiptNo (allOrders (run 999999999
      (map (typed 999999999) [''Ann'', ''y'', ''1'', ''1'', ''1'', ''n'', ''n'', ''y'']
       @ map (typed 1000000500) [''Bo'', ''n'', ''1'', ''1'', ''1'', ''n'', ''n''])))
     = [1000000000, 1000000001]
   \<and> distinct (map receiptNo (allOrders (run 999999999
      (map (typed 999999999) [''Ann'', ''y'', ''1'', ''1'', ''1'', ''n'', ''n'', ''y'']
       @ map (typed 1000000500) [''Bo'', ''n'', ''1'', ''1'', ''1'', ''n'', ''n'']))))
   \<and> filed (ledger_of 999999999
      (map (typed 999999999) [''Ann'', ''y'', ''1'', ''1'', ''1'', ''n'', ''n'']
       @ map (typed 1000004999) [''y'', ''Bo'', ''n'', ''1'', ''1'', ''1'', ''n'', ''n'']))
     = [(999999999, 1), (1000004999, 2)]
   \<and> distinct (map (\<lambda>p. unat (fst p mod 1000000000) + snd p)
        [(999999999 :: 64 word, 1 :: nat), (1000004999, 2)])
   \<and> map receiptNo (allOrders (run 999999999
      (map (typed 999999999) [''Ann'', ''y'', ''1'', ''1'', ''1'', ''n'', ''n'']
       @ map (typed 1000004999) [''y'', ''Bo'', ''n'', ''1'', ''1'', ''1'', ''n'', ''n''])))
     = [1000000000, 5001]"
proof -
  have a: "filed (ledger_of 999999999
      (map (typed 999999999) [''Ann'', ''y'', ''1'', ''1'', ''1'', ''n'', ''n'', ''y'']
       @ map (typed 1000000500) [''Bo'', ''n'', ''1'', ''1'', ''1'', ''n'', ''n'']))
     = [(999999999, 1), (999999999, 2)]
   \<and> drawn (ledger_of 999999999
      (map (typed 999999999) [''Ann'', ''y'', ''1'', ''1'', ''1'', ''n'', ''n'', ''y'']
       @ map (typed 1000000500) [''Bo'', ''n'', ''1'', ''1'', ''1'', ''n'', ''n''])) = 2
   \<and> map receiptNo (allOrders (run 999999999
      (map (typed 999999999) [''Ann'', ''y'', ''1'', ''1'', ''1'', ''n'', ''n'', ''y'']
       @ map (typed 1000000500) [''Bo'', ''n'', ''1'', ''1'', ''1'', ''n'', ''n''])))
     = [1000000000, 1000000001]
   \<and> filed (ledger_of 999999999
      (map (typed 999999999) [''Ann'', ''y'', ''1'', ''1'', ''1'', ''n'', ''n'']
       @ map (typed 1000004999) [''y'', ''Bo'', ''n'', ''1'', ''1'', ''1'', ''n'', ''n'']))
     = [(999999999, 1), (1000004999, 2)]
   \<and> map receiptNo (allOrders (run 999999999
      (map (typed 999999999) [''Ann'', ''y'', ''1'', ''1'', ''1'', ''n'', ''n'']
       @ map (typed 1000004999) [''y'', ''Bo'', ''n'', ''1'', ''1'', ''1'', ''n'', ''n''])))
     = [1000000000, 5001]"
    by code_simp
  have b: "(2::nat) + 1000000000 < 2 ^ 64" by simp
  have c: "sorted (map (\<lambda>p. unat (fst p mod 1000000000))
      [(999999999 :: 64 word, 1 :: nat), (999999999, 2)])" by simp
  have d: "distinct (map (\<lambda>p. unat (fst p mod 1000000000) + snd p)
        [(999999999 :: 64 word, 1 :: nat), (1000004999, 2)])" by simp
  have e: "distinct (map receiptNo (allOrders (run 999999999
      (map (typed 999999999) [''Ann'', ''y'', ''1'', ''1'', ''1'', ''n'', ''n'', ''y'']
       @ map (typed 1000000500) [''Bo'', ''n'', ''1'', ''1'', ''1'', ''n'', ''n'']))))"
    using a by simp
  from a b c d e receipt_numbers_of_history [of 999999999
      "map (typed 999999999) [''Ann'', ''y'', ''1'', ''1'', ''1'', ''n'', ''n'', ''y'']
       @ map (typed 1000000500) [''Bo'', ''n'', ''1'', ''1'', ''1'', ''n'', ''n'']"]
  show ?thesis by blast
qed


end
